theory Spec2Isabelle
  imports Main
begin

section \<open>Futures: the push-propagation core of src/future.ts\<close>

text \<open>
  The objects of the program live in a store: an address is a natural number, the store
  maps addresses to objects, and \<open>new\<close> takes the next unused address. A method
  of the source becomes a function that takes the state and returns it updated. An
  exception becomes the left summand of the result, together with the state at the moment
  it was raised (JavaScript keeps every assignment made before a \<open>throw\<close>).

  What the program is given from outside is kept outside the store. The functions passed
  to \<open>map\<close> and \<open>lift\<close> are functions from values to values; the function passed to
  \<open>subscribe\<close> and the two methods of a Behavior change a world of any type \<open>'w\<close>
  and do not call back into the store; the function passed to \<open>chain\<close> returns a term
  that says which future it hands back or makes.

  Method calls of the source nest without bound (a \<open>push\<close> calls \<open>resolve\<close>, which
  calls \<open>push\<close> on every listener), and a listener graph with a cycle never returns. The
  functions below therefore take the depth of \<open>push\<close> calls still allowed; running out
  of it is the error \<open>OutOfFuel\<close>.
\<close>

subsection \<open>Values, functions and objects\<close>

type_synonym addr = nat

text \<open>A JavaScript value: \<open>undefined\<close>, a primitive (the type parameter of
  \<open>Future<A>\<close>), or a reference to an object of the store.\<close>

datatype 'a jsval = Undefined | Prim 'a | Obj addr

text \<open>A JavaScript function value: its declared number of parameters (\<open>f.length\<close>)
  and what it returns on an argument list.\<close>

record 'a jsfun =
  arity :: nat
  call :: "'a jsval list \<Rightarrow> 'a jsval"

text \<open>
  The bind function of \<open>chain\<close> returns a future. What it may return is described
  by a term: a value it already holds, or a future it makes with the combinators of the
  source file.
\<close>

datatype 'a fexpr =
    Existing "'a jsval"
  | OfE "'a jsval"
  | SinkE
  | MapE "'a jsfun" "'a fexpr"
  | MapToE "'a jsval" "'a fexpr"
  | ChainE "'a jsval \<Rightarrow> 'a fexpr" "'a fexpr"
  | LiftE "'a jsfun" "'a fexpr list"

text \<open>
  The external Behavior is used through two of its methods only. Both act on the world
  outside the store, and take the observer's address.
\<close>

record 'w behavior =
  addListener :: "addr \<Rightarrow> 'w \<Rightarrow> 'w"
  removeListener :: "addr \<Rightarrow> 'w \<Rightarrow> 'w"

text \<open>The subclasses of \<open>Future\<close>, each with its private fields.\<close>

datatype ('a, 'w) kind =
    MapFuture "'a jsfun" "'a jsval"
  | MapToFuture "'a jsval"
  | PureFuture
  | LiftFuture "'a jsfun" "'a jsval list" nat nat
  | ChainFuture "'a jsval \<Rightarrow> 'a fexpr" "'a jsval" bool
  | FutureSink
  | BehaviorFuture "'w behavior"

text \<open>
  The fields of the abstract class \<open>Future\<close>. The source leaves \<open>occurred\<close>
  unset (\<open>undefined\<close>) until \<open>resolve\<close> and only ever tests it with
  \<open>!== true\<close>, so \<open>False\<close> stands for both \<open>undefined\<close> and \<open>false\<close>. The
  field \<open>value\<close> of the source is \<open>value'\<close> here, \<open>value\<close> being a word of the
  theory language.
\<close>

record ('a, 'w) future =
  occurred :: bool
  value' :: "'a jsval"
  listeners :: "addr list"
  kind :: "('a, 'w) kind"

text \<open>An object is a future or a \<open>Subscription\<close> (a consumer that is not a future),
  which holds its side-effecting function and its parent.\<close>

datatype ('a, 'w) obj =
    Future "('a, 'w) future"
  | Subscription "'a jsval \<Rightarrow> 'w \<Rightarrow> 'w" "'a jsval"

record ('a, 'w) state =
  heap :: "addr \<Rightarrow> ('a, 'w) obj option"
  nxt :: addr
  world :: 'w

datatype error = Error string | TypeError | OutOfFuel

type_synonym ('a, 'w) result = "(error \<times> ('a, 'w) state) + ('a, 'w) state"
type_synonym ('a, 'w, 'r) result_with = "(error \<times> ('a, 'w) state) + ('r \<times> ('a, 'w) state)"

definition alloc :: "('a, 'w) state \<Rightarrow> ('a, 'w) obj \<Rightarrow> addr \<times> ('a, 'w) state" where
  "alloc s ob = (nxt s, s\<lparr>heap := (heap s)(nxt s \<mapsto> ob), nxt := Suc (nxt s)\<rparr>)"

definition set_obj :: "('a, 'w) state \<Rightarrow> addr \<Rightarrow> ('a, 'w) obj \<Rightarrow> ('a, 'w) state" where
  "set_obj s a ob = s\<lparr>heap := (heap s)(a \<mapsto> ob)\<rparr>"

text \<open>The constructor of \<open>Future\<close>: no listeners, nothing else set.\<close>

definition new_future :: "('a, 'w) kind \<Rightarrow> ('a, 'w) future" where
  "new_future k = \<lparr>occurred = False, value' = Undefined, listeners = [], kind = k\<rparr>"

text \<open>Reading \<open>x.value\<close>: a property read on \<open>undefined\<close> raises, on a primitive
  or on an object without the field it gives \<open>undefined\<close>. The state is not changed.\<close>

definition get_value :: "('a, 'w) state \<Rightarrow> 'a jsval \<Rightarrow> error + 'a jsval" where
  "get_value s x =
     (case x of
        Undefined \<Rightarrow> Inl TypeError
      | Prim _ \<Rightarrow> Inr Undefined
      | Obj a \<Rightarrow>
          (case heap s a of
             Some (Future fu) \<Rightarrow> Inr (value' fu)
           | Some (Subscription _ _) \<Rightarrow> Inr Undefined
           | None \<Rightarrow> Inl TypeError))"

text \<open>Reading \<open>xs[i]\<close>: an index outside the array gives \<open>undefined\<close>.\<close>

definition array_get :: "'a jsval list \<Rightarrow> nat \<Rightarrow> 'a jsval" where
  "array_get xs i = (if i < length xs then xs ! i else Undefined)"

text \<open>The constructors that register nowhere. \<open>PureFuture\<close> stores its value and
  sets \<open>occurred\<close>; \<open>FutureSink\<close> has the constructor of \<open>Future\<close> only.\<close>

definition new_PureFuture :: "('a, 'w) state \<Rightarrow> 'a jsval \<Rightarrow> 'a jsval \<times> ('a, 'w) state" where
  "new_PureFuture s v =
     (case alloc s (Future ((new_future PureFuture)\<lparr>value' := v, occurred := True\<rparr>)) of
        (this, s1) \<Rightarrow> (Obj this, s1))"

definition sinkFuture :: "('a, 'w) state \<Rightarrow> 'a jsval \<times> ('a, 'w) state" where
  "sinkFuture s =
     (case alloc s (Future (new_future FutureSink)) of (this, s1) \<Rightarrow> (Obj this, s1))"

subsection \<open>The methods\<close>

text \<open>The loop of \<open>LiftFuture.push\<close>: \<open>this.futures[i] = this.futures[i].value\<close>
  for \<open>i\<close> below \<open>l\<close>, on the array of the object at \<open>c\<close>. The array is
  overwritten in place, one element per iteration. An index outside the array never
  reaches the assignment: the read of \<open>undefined.value\<close> raises first.\<close>

function read_values :: "('a, 'w) state \<Rightarrow> addr \<Rightarrow> nat \<Rightarrow> nat \<Rightarrow> ('a, 'w) result" where
  "read_values s c i l =
     (if i < l then
        (case heap s c of
           Some (Future fu) \<Rightarrow>
             (case kind fu of
                LiftFuture f futures delivered dependencies \<Rightarrow>
                  (case get_value s (array_get futures i) of
                     Inl e \<Rightarrow> Inl (e, s)
                   | Inr v \<Rightarrow>
                       read_values
                         (set_obj s c (Future (fu\<lparr>kind :=
                            LiftFuture f (futures[i := v]) delivered dependencies\<rparr>)))
                         c (Suc i) l)
              | _ \<Rightarrow> Inl (TypeError, s))
         | _ \<Rightarrow> Inl (TypeError, s))
      else Inr s)"
  by pat_completeness auto
termination
  by (relation "measure (\<lambda>(s, c, i, l). l - i)") auto

text \<open>
  The methods that call each other, with the number \<open>n\<close> of nested \<open>push\<close>
  calls still allowed:
  \<^item> \<open>push n s c v\<close> is \<open>c.push(v)\<close>, dispatched on the class of the object at \<open>c\<close>;
  \<^item> \<open>resolve n s c v\<close> is \<open>c.resolve(v)\<close>, and \<open>resolve_loop n s c v i l\<close> its
    \<open>for\<close> loop from index \<open>i\<close>: the loop keeps a reference to the array of
    listeners, not a copy, so each iteration reads the array of the current state, and
    only the length \<open>l\<close> is fixed before the loop;
  \<^item> \<open>listen n s x o'\<close> is \<open>x.listen(o')\<close>; a value \<open>x\<close> that is no future has no
    such method, which is a \<open>TypeError\<close>;
  \<^item> \<open>new_listening n s ob parent\<close> is the shape shared by the constructors of
    \<open>MapFuture\<close>, \<open>MapToFuture\<close>, \<open>ChainFuture\<close> and \<open>Subscription\<close>: the
    new object \<open>ob\<close> gets its address, then \<open>parent.listen(this)\<close> runs;
  \<^item> \<open>new_LiftFuture n s f futures\<close> is the constructor of \<open>LiftFuture\<close>, and
    \<open>listen_loop n s c i l\<close> its \<open>for\<close> loop from index \<open>i\<close>;
  \<^item> \<open>build n s e\<close> runs the combinators of the term \<open>e\<close> that a bind function
    returned, arguments first and from left to right.
\<close>

function push :: "nat \<Rightarrow> ('a, 'w) state \<Rightarrow> addr \<Rightarrow> 'a jsval \<Rightarrow> ('a, 'w) result"
and resolve :: "nat \<Rightarrow> ('a, 'w) state \<Rightarrow> addr \<Rightarrow> 'a jsval \<Rightarrow> ('a, 'w) result"
and resolve_loop :: "nat \<Rightarrow> ('a, 'w) state \<Rightarrow> addr \<Rightarrow> 'a jsval \<Rightarrow> nat \<Rightarrow> nat \<Rightarrow> ('a, 'w) result"
and listen :: "nat \<Rightarrow> ('a, 'w) state \<Rightarrow> 'a jsval \<Rightarrow> addr \<Rightarrow> ('a, 'w) result"
and listen_loop :: "nat \<Rightarrow> ('a, 'w) state \<Rightarrow> addr \<Rightarrow> nat \<Rightarrow> nat \<Rightarrow> ('a, 'w) result"
and new_listening :: "nat \<Rightarrow> ('a, 'w) state \<Rightarrow> ('a, 'w) obj \<Rightarrow> 'a jsval \<Rightarrow> ('a, 'w, 'a jsval) result_with"
and new_LiftFuture :: "nat \<Rightarrow> ('a, 'w) state \<Rightarrow> 'a jsfun \<Rightarrow> 'a jsval list \<Rightarrow> ('a, 'w, 'a jsval) result_with"
and build :: "nat \<Rightarrow> ('a, 'w) state \<Rightarrow> 'a fexpr \<Rightarrow> ('a, 'w, 'a jsval) result_with"
and build_list :: "nat \<Rightarrow> ('a, 'w) state \<Rightarrow> 'a fexpr list \<Rightarrow> ('a, 'w, 'a jsval list) result_with"
where
  "push 0 s c v = Inl (OutOfFuel, s)"
| "push (Suc n) s c v =
     (case heap s c of
        None \<Rightarrow> Inl (TypeError, s)
      | Some (Subscription f p) \<Rightarrow> Inr (s\<lparr>world := f v (world s)\<rparr>)
      | Some (Future fu) \<Rightarrow>
          (case kind fu of
             MapFuture f p \<Rightarrow> resolve n s c (call f [v])
           | MapToFuture p \<Rightarrow> resolve n s c (value' fu)
           | PureFuture \<Rightarrow> Inl (Error ''A PureFuture should never be pushed to.'', s)
           | LiftFuture f futures delivered l \<Rightarrow>
               (let s1 = set_obj s c (Future (fu\<lparr>kind := LiftFuture f futures (delivered + 1) l\<rparr>))
                in if delivered + 1 = l then
                     (case read_values s1 c 0 l of
                        Inl e \<Rightarrow> Inl e
                      | Inr s2 \<Rightarrow>
                          (case heap s2 c of
                             Some (Future fu2) \<Rightarrow>
                               (case kind fu2 of
                                  LiftFuture f2 vs d2 l2 \<Rightarrow> resolve n s2 c (call f2 vs)
                                | _ \<Rightarrow> Inl (TypeError, s2))
                           | _ \<Rightarrow> Inl (TypeError, s2)))
                   else Inr s1)
           | ChainFuture f p parentOccurred \<Rightarrow>
               (if parentOccurred = False then
                  (let s1 = set_obj s c (Future (fu\<lparr>kind := ChainFuture f p True\<rparr>))
                   in case build n s1 (f v) of
                        Inl e \<Rightarrow> Inl e
                      | Inr (newFuture, s2) \<Rightarrow> listen n s2 newFuture c)
                else resolve n s c v)
           | FutureSink \<Rightarrow> Inl (Error ''A sink should never be pushed to.'', s)
           | BehaviorFuture b \<Rightarrow>
               resolve n (s\<lparr>world := removeListener b c (world s)\<rparr>) c v))"
| "resolve n s c v =
     (case heap s c of
        Some (Future fu) \<Rightarrow>
          resolve_loop n (set_obj s c (Future (fu\<lparr>occurred := True, value' := v\<rparr>)))
            c v 0 (length (listeners fu))
      | _ \<Rightarrow> Inl (TypeError, s))"
| "resolve_loop n s c v i l =
     (if i < l then
        (case heap s c of
           Some (Future fu) \<Rightarrow>
             (if i < length (listeners fu) then
                (case push n s (listeners fu ! i) v of
                   Inl e \<Rightarrow> Inl e
                 | Inr s1 \<Rightarrow> resolve_loop n s1 c v (Suc i) l)
              else Inl (TypeError, s))
         | _ \<Rightarrow> Inl (TypeError, s))
      else Inr s)"
| "listen n s x o' =
     (case x of
        Obj a \<Rightarrow>
          (case heap s a of
             Some (Future fu) \<Rightarrow>
               (if occurred fu \<noteq> True then
                  Inr (set_obj s a (Future (fu\<lparr>listeners := listeners fu @ [o']\<rparr>)))
                else push n s o' (value' fu))
           | _ \<Rightarrow> Inl (TypeError, s))
      | _ \<Rightarrow> Inl (TypeError, s))"
| "listen_loop n s c i l =
     (if i < l then
        (case heap s c of
           Some (Future fu) \<Rightarrow>
             (case kind fu of
                LiftFuture f futures delivered dependencies \<Rightarrow>
                  (case listen n s (array_get futures i) c of
                     Inl e \<Rightarrow> Inl e
                   | Inr s1 \<Rightarrow> listen_loop n s1 c (Suc i) l)
              | _ \<Rightarrow> Inl (TypeError, s))
         | _ \<Rightarrow> Inl (TypeError, s))
      else Inr s)"
| "new_listening n s ob parent =
     (case alloc s ob of (this, s1) \<Rightarrow>
        (case listen n s1 parent this of
           Inl e \<Rightarrow> Inl e
         | Inr s2 \<Rightarrow> Inr (Obj this, s2)))"
| "new_LiftFuture n s f futures =
     (case alloc s (Future (new_future (LiftFuture f futures 0 (length futures)))) of (this, s1) \<Rightarrow>
        (case listen_loop n s1 this 0 (length futures) of
           Inl e \<Rightarrow> Inl e
         | Inr s2 \<Rightarrow> Inr (Obj this, s2)))"
| "build n s (Existing x) = Inr (x, s)"
| "build n s (OfE v) = Inr (new_PureFuture s v)"
| "build n s SinkE = Inr (sinkFuture s)"
| "build n s (MapE f e) =
     (case build n s e of
        Inl er \<Rightarrow> Inl er
      | Inr (parent, s1) \<Rightarrow> new_listening n s1 (Future (new_future (MapFuture f parent))) parent)"
| "build n s (MapToE b e) =
     (case build n s e of
        Inl er \<Rightarrow> Inl er
      | Inr (parent, s1) \<Rightarrow>
          new_listening n s1 (Future ((new_future (MapToFuture parent))\<lparr>value' := b\<rparr>)) parent)"
| "build n s (ChainE f e) =
     (case build n s e of
        Inl er \<Rightarrow> Inl er
      | Inr (parent, s1) \<Rightarrow>
          new_listening n s1 (Future (new_future (ChainFuture f parent False))) parent)"
| "build n s (LiftE f es) =
     (case build_list n s es of
        Inl er \<Rightarrow> Inl er
      | Inr (args, s1) \<Rightarrow>
          (if arity f = 1 then
             (let parent = array_get args 0
              in new_listening n s1 (Future (new_future (MapFuture f parent))) parent)
           else new_LiftFuture n s1 f args))"
| "build_list n s [] = Inr ([], s)"
| "build_list n s (e # es) =
     (case build n s e of
        Inl er \<Rightarrow> Inl er
      | Inr (x, s1) \<Rightarrow>
          (case build_list n s1 es of
             Inl er \<Rightarrow> Inl er
           | Inr (xs, s2) \<Rightarrow> Inr (x # xs, s2)))"
  by pat_completeness auto
termination
  by (relation "inv_image (less_than <*lex*> less_than <*lex*> less_than)
        (\<lambda>x. case x of
            Inl (Inl (Inl (n, s, c, v))) \<Rightarrow> (n, 0::nat, 0::nat)
          | Inl (Inl (Inr (n, s, c, v))) \<Rightarrow> (n, 2, 0)
          | Inl (Inr (Inl (n, s, c, v, i, l))) \<Rightarrow> (n, 1, l - i)
          | Inl (Inr (Inr (n, s, x, c))) \<Rightarrow> (n, 1, 0)
          | Inr (Inl (Inl (n, s, c, i, l))) \<Rightarrow> (n, 2, l - i)
          | Inr (Inl (Inr (n, s, ob, p))) \<Rightarrow> (n, 3, 0)
          | Inr (Inr (Inl (n, s, f, xs))) \<Rightarrow> (n, 3, 0)
          | Inr (Inr (Inr (Inl (n, s, e)))) \<Rightarrow> (n, 4, size e)
          | Inr (Inr (Inr (Inr (n, s, es)))) \<Rightarrow> (n, 4, size_list size es))")
     auto

text \<open>The defining equations are unfolded by name where a proof needs them.\<close>

declare read_values.simps [simp del]
declare push.simps [simp del]
declare resolve.simps [simp del]
declare resolve_loop.simps [simp del]
declare listen.simps [simp del]
declare listen_loop.simps [simp del]
declare new_listening.simps [simp del]
declare new_LiftFuture.simps [simp del]
declare build.simps [simp del]
declare build_list.simps [simp del]

subsection \<open>The constructors and the public methods\<close>

definition new_MapFuture ::
  "nat \<Rightarrow> ('a, 'w) state \<Rightarrow> 'a jsfun \<Rightarrow> 'a jsval \<Rightarrow> ('a, 'w, 'a jsval) result_with" where
  "new_MapFuture n s f parent = new_listening n s (Future (new_future (MapFuture f parent))) parent"

text \<open>\<open>MapToFuture\<close> declares its first constructor parameter \<open>public value\<close>, so the
  field is written at construction, before the future occurs.\<close>

definition new_MapToFuture ::
  "nat \<Rightarrow> ('a, 'w) state \<Rightarrow> 'a jsval \<Rightarrow> 'a jsval \<Rightarrow> ('a, 'w, 'a jsval) result_with" where
  "new_MapToFuture n s b parent =
     new_listening n s (Future ((new_future (MapToFuture parent))\<lparr>value' := b\<rparr>)) parent"

definition new_ChainFuture ::
  "nat \<Rightarrow> ('a, 'w) state \<Rightarrow> ('a jsval \<Rightarrow> 'a fexpr) \<Rightarrow> 'a jsval \<Rightarrow> ('a, 'w, 'a jsval) result_with" where
  "new_ChainFuture n s f parent =
     new_listening n s (Future (new_future (ChainFuture f parent False))) parent"

definition new_Subscription ::
  "nat \<Rightarrow> ('a, 'w) state \<Rightarrow> ('a jsval \<Rightarrow> 'w \<Rightarrow> 'w) \<Rightarrow> 'a jsval \<Rightarrow> ('a, 'w, 'a jsval) result_with" where
  "new_Subscription n s f parent = new_listening n s (Subscription f parent) parent"

definition new_BehaviorFuture :: "('a, 'w) state \<Rightarrow> 'w behavior \<Rightarrow> 'a jsval \<times> ('a, 'w) state" where
  "new_BehaviorFuture s b =
     (case alloc s (Future (new_future (BehaviorFuture b))) of
        (this, s1) \<Rightarrow> (Obj this, s1\<lparr>world := addListener b this (world s1)\<rparr>))"

definition changeStateDown :: "('a, 'w) state \<Rightarrow> addr \<Rightarrow> ('a, 'w) result" where
  "changeStateDown s this = Inl (Error ''Behavior future does not support pushing behavior'', s)"

definition subscribe ::
  "nat \<Rightarrow> ('a, 'w) state \<Rightarrow> addr \<Rightarrow> ('a jsval \<Rightarrow> 'w \<Rightarrow> 'w) \<Rightarrow> ('a, 'w) result" where
  "subscribe n s this f =
     (case new_Subscription n s f (Obj this) of Inl e \<Rightarrow> Inl e | Inr (sub, s1) \<Rightarrow> Inr s1)"

definition map_future ::
  "nat \<Rightarrow> ('a, 'w) state \<Rightarrow> addr \<Rightarrow> 'a jsfun \<Rightarrow> ('a, 'w, 'a jsval) result_with" where
  "map_future n s this f = new_MapFuture n s f (Obj this)"

definition mapTo ::
  "nat \<Rightarrow> ('a, 'w) state \<Rightarrow> addr \<Rightarrow> 'a jsval \<Rightarrow> ('a, 'w, 'a jsval) result_with" where
  "mapTo n s this b = new_MapToFuture n s b (Obj this)"

definition of_future :: "('a, 'w) state \<Rightarrow> 'a jsval \<Rightarrow> 'a jsval \<times> ('a, 'w) state" where
  "of_future s b = new_PureFuture s b"

text \<open>\<open>lift(f, ...args)\<close>: \<open>args[0]\<close> of an empty argument list is \<open>undefined\<close>.\<close>

definition lift ::
  "nat \<Rightarrow> ('a, 'w) state \<Rightarrow> 'a jsfun \<Rightarrow> 'a jsval list \<Rightarrow> ('a, 'w, 'a jsval) result_with" where
  "lift n s f args =
     (if arity f = 1 then new_MapFuture n s f (array_get args 0)
      else new_LiftFuture n s f args)"

definition chain_future ::
  "nat \<Rightarrow> ('a, 'w) state \<Rightarrow> addr \<Rightarrow> ('a jsval \<Rightarrow> 'a fexpr) \<Rightarrow> ('a, 'w, 'a jsval) result_with" where
  "chain_future n s this f = new_ChainFuture n s f (Obj this)"

section \<open>Vocabulary of the properties\<close>

subsection \<open>Reading a state\<close>

text \<open>The state a call leaves behind, whether it returned or raised.\<close>

definition state_of :: "('a, 'w) result \<Rightarrow> ('a, 'w) state" where
  "state_of r = (case r of Inl (e, s) \<Rightarrow> s | Inr s \<Rightarrow> s)"

definition state_of_with :: "('a, 'w, 'r) result_with \<Rightarrow> ('a, 'w) state" where
  "state_of_with r = (case r of Inl (e, s) \<Rightarrow> s | Inr (x, s) \<Rightarrow> s)"

text \<open>The fields of the future at an address.\<close>

definition occurred_at :: "('a, 'w) state \<Rightarrow> addr \<Rightarrow> bool" where
  "occurred_at s a = (case heap s a of Some (Future fu) \<Rightarrow> occurred fu | _ \<Rightarrow> False)"

definition value_at :: "('a, 'w) state \<Rightarrow> addr \<Rightarrow> 'a jsval" where
  "value_at s a = (case heap s a of Some (Future fu) \<Rightarrow> value' fu | _ \<Rightarrow> Undefined)"

definition listeners_at :: "('a, 'w) state \<Rightarrow> addr \<Rightarrow> addr list" where
  "listeners_at s a = (case heap s a of Some (Future fu) \<Rightarrow> listeners fu | _ \<Rightarrow> [])"

subsection \<open>Terminal consumers\<close>

text \<open>
  A subscription is the consumer whose \<open>push\<close> is visible from outside: it applies its
  function to the world. \<open>run_callbacks s cs v w\<close> is the world after the subscriptions
  at \<open>cs\<close> have each been given \<open>v\<close> once, from left to right.
\<close>

definition callback_of :: "('a, 'w) state \<Rightarrow> addr \<Rightarrow> 'a jsval \<Rightarrow> 'w \<Rightarrow> 'w" where
  "callback_of s c = (case heap s c of Some (Subscription g p) \<Rightarrow> g | _ \<Rightarrow> (\<lambda>v w. w))"

definition is_Subscription :: "('a, 'w) state \<Rightarrow> addr \<Rightarrow> bool" where
  "is_Subscription s c = (case heap s c of Some (Subscription g p) \<Rightarrow> True | _ \<Rightarrow> False)"

definition run_callbacks :: "('a, 'w) state \<Rightarrow> addr list \<Rightarrow> 'a jsval \<Rightarrow> 'w \<Rightarrow> 'w" where
  "run_callbacks s cs v w = foldl (\<lambda>w c. callback_of s c v w) w cs"

text \<open>The listeners are subscriptions that have been allocated: terminal consumers.\<close>

definition terminal :: "('a, 'w) state \<Rightarrow> addr list \<Rightarrow> bool" where
  "terminal s cs = list_all (\<lambda>c. c < nxt s \<and> is_Subscription s c) cs"

text \<open>A future that has been allocated, has not occurred, and has terminal listeners only.\<close>

definition waiting :: "('a, 'w) state \<Rightarrow> addr \<Rightarrow> bool" where
  "waiting s p =
     (p < nxt s \<and>
      (case heap s p of
         Some (Future fu) \<Rightarrow> \<not> occurred fu \<and> terminal s (listeners fu)
       | _ \<Rightarrow> False))"

text \<open>The world after the terminal listeners of the futures of a list have been notified,
  future after future, each with the value of its future.\<close>

definition notified ::
  "('a, 'w) state \<Rightarrow> (addr \<Rightarrow> 'a jsval) \<Rightarrow> addr list \<Rightarrow> 'w \<Rightarrow> 'w" where
  "notified s val_of ps w = foldl (\<lambda>w p. run_callbacks s (listeners_at s p) (val_of p) w) w ps"

subsection \<open>Sequences of calls\<close>

text \<open>\<open>c.push(v)\<close> for each \<open>c\<close> of a list, from left to right; a call that raises
  ends the sequence. \<open>listen_seq\<close> is a caller making one \<open>F.listen(c)\<close> call after
  the other.\<close>

fun push_all :: "nat \<Rightarrow> ('a, 'w) state \<Rightarrow> addr list \<Rightarrow> 'a jsval \<Rightarrow> ('a, 'w) result" where
  "push_all n s [] v = Inr s"
| "push_all n s (c # cs) v =
     (case push n s c v of Inl e \<Rightarrow> Inl e | Inr s1 \<Rightarrow> push_all n s1 cs v)"

fun listen_seq :: "nat \<Rightarrow> ('a, 'w) state \<Rightarrow> addr \<Rightarrow> addr list \<Rightarrow> ('a, 'w) result" where
  "listen_seq n s F [] = Inr s"
| "listen_seq n s F (c # cs) =
     (case listen n s (Obj F) c of Inl e \<Rightarrow> Inl e | Inr s1 \<Rightarrow> listen_seq n s1 F cs)"

text \<open>A caller resolving the futures of a list one after the other, each with its value.\<close>

fun resolve_seq ::
  "nat \<Rightarrow> ('a, 'w) state \<Rightarrow> addr list \<Rightarrow> (addr \<Rightarrow> 'a jsval) \<Rightarrow> ('a, 'w) result" where
  "resolve_seq n s [] val_of = Inr s"
| "resolve_seq n s (p # ps) val_of =
     (case resolve n s p (val_of p) of Inl e \<Rightarrow> Inl e | Inr s1 \<Rightarrow> resolve_seq n s1 ps val_of)"

subsection \<open>What no call changes\<close>

text \<open>
  \<open>keeps s s'\<close>: no address of \<open>s\<close> is given away again, and a future of \<open>s\<close> that
  has occurred is in \<open>s'\<close> a future that has occurred, with the same listeners.
\<close>

definition keeps :: "('a, 'w) state \<Rightarrow> ('a, 'w) state \<Rightarrow> bool" where
  "keeps s s' \<longleftrightarrow>
     nxt s \<le> nxt s' \<and>
     (\<forall>a fu. a < nxt s \<and> heap s a = Some (Future fu) \<and> occurred fu \<longrightarrow>
        (\<exists>fu'. heap s' a = Some (Future fu') \<and> occurred fu' \<and> listeners fu' = listeners fu))"

text \<open>
  The states between the construction of a \<open>LiftFuture\<close> over the futures \<open>ps\<close> of
  \<open>s\<close>, with one subscription \<open>h\<close> on it, and its firing: the lift future is at
  \<open>nxt s\<close>, has counted \<open>k\<close> deliveries and has not occurred; its subscription is at
  the next address; every parent has the lift future as its last listener, and the
  parents of \<open>R\<close> have occurred, each with its value.
\<close>

definition lift_inv ::
  "('a, 'w) state \<Rightarrow> addr list \<Rightarrow> 'a jsfun \<Rightarrow> ('a jsval \<Rightarrow> 'w \<Rightarrow> 'w) \<Rightarrow> (addr \<Rightarrow> 'a jsval) \<Rightarrow>
     nat \<Rightarrow> addr set \<Rightarrow> ('a, 'w) state \<Rightarrow> bool" where
  "lift_inv s ps f h val_of k R t \<longleftrightarrow>
     nxt t = Suc (Suc (nxt s)) \<and>
     heap t (nxt s) =
       Some (Future \<lparr>occurred = False, value' = Undefined, listeners = [Suc (nxt s)],
                     kind = LiftFuture f (map Obj ps) k (length ps)\<rparr>) \<and>
     heap t (Suc (nxt s)) = Some (Subscription h (Obj (nxt s))) \<and>
     (\<forall>p \<in> set ps. \<exists>fu. heap s p = Some (Future fu) \<and>
        heap t p = Some (Future
          (if p \<in> R
           then fu\<lparr>listeners := listeners fu @ [nxt s], occurred := True, value' := val_of p\<rparr>
           else fu\<lparr>listeners := listeners fu @ [nxt s]\<rparr>))) \<and>
     (\<forall>c. c < nxt s \<and> is_Subscription s c \<longrightarrow> heap t c = heap s c)"

subsection \<open>Functions of the examples\<close>

text \<open>A side effect that appends the value it is given to a log.\<close>

definition print :: "int jsval \<Rightarrow> int jsval list \<Rightarrow> int jsval list" where
  "print v w = w @ [v]"

text \<open>\<open>x => x * 2\<close> on numbers (the examples apply it to numbers only), and
  \<open>x => g(f(x))\<close>.\<close>

definition double :: "int jsfun" where
  "double = \<lparr>arity = 1, call = (\<lambda>xs. case array_get xs 0 of Prim x \<Rightarrow> Prim (x * 2) | _ \<Rightarrow> Undefined)\<rparr>"

definition compose :: "'a jsfun \<Rightarrow> 'a jsfun \<Rightarrow> 'a jsfun" where
  "compose g f = \<lparr>arity = 1, call = (\<lambda>xs. call g [call f [array_get xs 0]])\<rparr>"

text \<open>\<open>(a, b, c) => a + b + c\<close> on numbers.\<close>

definition sum3 :: "int jsfun" where
  "sum3 = \<lparr>arity = 3,
            call = (\<lambda>xs. case xs of [Prim a, Prim b, Prim c] \<Rightarrow> Prim (a + b + c) | _ \<Rightarrow> Undefined)\<rparr>"

text \<open>
  A Behavior for the examples: the world is the list of its observers and a log; its two
  methods add and remove an observer. A side effect that logs the value it is given
  together with the observers registered at that moment.
\<close>

definition list_behavior :: "(addr list \<times> (int jsval \<times> addr list) list) behavior" where
  "list_behavior =
     \<lparr>addListener = (\<lambda>a (obs, log). (obs @ [a], log)),
      removeListener = (\<lambda>a (obs, log). (removeAll a obs, log))\<rparr>"

definition log_observers ::
  "int jsval \<Rightarrow> addr list \<times> (int jsval \<times> addr list) list \<Rightarrow> addr list \<times> (int jsval \<times> addr list) list" where
  "log_observers v = (\<lambda>(obs, log). (obs, log @ [(v, obs)]))"

text \<open>The values the three sinks of the last example are resolved with.\<close>

definition abc_values :: "addr \<Rightarrow> int jsval" where
  "abc_values p = (if p = 0 then Prim 10 else if p = 1 then Prim 20 else Prim 30)"

subsection \<open>States of the examples\<close>

text \<open>The empty store, and a sink alone in it, at 0.\<close>

definition init_state :: "(int, int jsval list) state" where
  "init_state = \<lparr>heap = (\<lambda>a. None), nxt = 0, world = []\<rparr>"

definition fresh_sink :: "(int, int jsval list) state" where
  "fresh_sink = snd (sinkFuture init_state)"

text \<open>A sink at address 0 and two subscriptions, at 1 and 2, that are registered nowhere yet.\<close>

definition sink_and_two :: "(int, int jsval list) state" where
  "sink_and_two =
     \<lparr>heap = [0 \<mapsto> Future (new_future FutureSink),
              1 \<mapsto> Subscription print (Obj 0),
              2 \<mapsto> Subscription (\<lambda>v. print (Obj 7)) (Obj 0)],
      nxt = 3, world = []\<rparr>"

text \<open>An occurred future at 0 (made by \<open>Future.of(7)\<close>) and a subscription at 1 that is
  registered nowhere yet.\<close>

definition pure_and_one :: "(int, int jsval list) state" where
  "pure_and_one =
     \<lparr>heap = [0 \<mapsto> Future ((new_future PureFuture)\<lparr>value' := Prim 7, occurred := True\<rparr>),
              1 \<mapsto> Subscription print (Obj 0)],
      nxt = 2, world = []\<rparr>"

text \<open>A sink at 0 with a logging subscription at 1, registered by \<open>subscribe\<close>.\<close>

definition sink_subscribed :: "(int, int jsval list) state" where
  "sink_subscribed = state_of (subscribe 0 (snd (sinkFuture init_state)) 0 print)"

text \<open>One future of each class that rejects a notification, at 0, 1 and 2.\<close>

definition rejecting :: "(int, addr list \<times> (int jsval \<times> addr list) list) state" where
  "rejecting =
     \<lparr>heap = [0 \<mapsto> Future ((new_future PureFuture)\<lparr>value' := Prim 7, occurred := True\<rparr>),
              1 \<mapsto> Future (new_future FutureSink),
              2 \<mapsto> Future (new_future (BehaviorFuture list_behavior))],
      nxt = 3, world = ([2], [])\<rparr>"

text \<open>The adapter of \<open>list_behavior\<close> at address 0, with one subscription at 1.\<close>

definition adapter_subscribed :: "(int, addr list \<times> (int jsval \<times> addr list) list) state" where
  "adapter_subscribed =
     state_of (subscribe 0
       (snd (new_BehaviorFuture \<lparr>heap = (\<lambda>a. None), nxt = 0, world = ([], [])\<rparr> list_behavior))
       0 log_observers)"

text \<open>Two sinks, at 0 and 1.\<close>

definition two_sinks :: "(int, int jsval list) state" where
  "two_sinks =
     \<lparr>heap = [0 \<mapsto> Future (new_future FutureSink), 1 \<mapsto> Future (new_future FutureSink)],
      nxt = 2, world = []\<rparr>"

text \<open>The chain \<open>F.chain(_ => G)\<close> of the two sinks, at 2, with a logging subscription at 3.\<close>

definition chained :: "(int, int jsval list) state" where
  "chained =
     state_of (subscribe 0 (state_of_with (chain_future 0 two_sinks 0 (\<lambda>x. Existing (Obj 1)))) 2 print)"

text \<open>Three sinks, at 0, 1 and 2, and the state after \<open>lift(sum3, A, B, C)\<close> and a
  logging subscription on the result (at 3 and 4).\<close>

definition three_sinks :: "(int, int jsval list) state" where
  "three_sinks =
     \<lparr>heap = [0 \<mapsto> Future (new_future FutureSink), 1 \<mapsto> Future (new_future FutureSink),
              2 \<mapsto> Future (new_future FutureSink)],
      nxt = 3, world = []\<rparr>"

definition lifted3 :: "(int, int jsval list) state" where
  "lifted3 = state_of (subscribe 0 (state_of_with (lift 0 three_sinks sum3 [Obj 0, Obj 1, Obj 2])) 3 print)"

section \<open>Lemmas\<close>

subsection \<open>Resolving a future whose listeners are subscriptions\<close>

lemma push_Subscription:
  "is_Subscription s c \<Longrightarrow> push (Suc n) s c v = Inr (s\<lparr>world := callback_of s c v (world s)\<rparr>)"
  by (simp add: push.simps is_Subscription_def callback_of_def split: option.splits obj.splits)

lemma resolve_loop_Subscriptions:
  assumes "heap t F = Some (Future fu)"
    and "list_all (is_Subscription t) (listeners fu)"
    and "l = length (listeners fu)"
  shows "resolve_loop (Suc n) t F v i l =
           Inr (t\<lparr>world := run_callbacks t (drop i (listeners fu)) v (world t)\<rparr>)"
  using assms
proof (induction "l - i" arbitrary: i t)
  case 0
  then show ?case
    by (simp add: resolve_loop.simps [of _ _ _ _ i] run_callbacks_def)
next
  case (Suc k)
  let ?c = "listeners fu ! i"
  let ?t1 = "t\<lparr>world := callback_of t ?c v (world t)\<rparr>"
  from Suc have i: "i < length (listeners fu)" by simp
  with Suc have sub: "is_Subscription t ?c" by (simp add: list_all_length)
  have same: "is_Subscription ?t1 = is_Subscription t" "callback_of ?t1 = callback_of t"
    by (simp_all add: is_Subscription_def callback_of_def fun_eq_iff)
  have "resolve_loop (Suc n) ?t1 F v (Suc i) l =
          Inr (?t1\<lparr>world := run_callbacks ?t1 (drop (Suc i) (listeners fu)) v (world ?t1)\<rparr>)"
    using Suc by (intro Suc.hyps(1)) (simp_all add: same)
  then show ?case
    using i sub Suc.prems
    by (simp add: resolve_loop.simps [of _ t _ _ i] push_Subscription
        run_callbacks_def same Cons_nth_drop_Suc [symmetric])
qed

lemma run_callbacks_cong:
  "(\<And>c. c \<in> set cs \<Longrightarrow> callback_of t c = callback_of s c) \<Longrightarrow>
     run_callbacks t cs v w = run_callbacks s cs v w"
  unfolding run_callbacks_def by (induction cs arbitrary: w) simp_all

lemma resolve_Subscriptions:
  assumes "heap s F = Some (Future fu)"
    and "list_all (is_Subscription s) (listeners fu)"
  shows "resolve (Suc n) s F v =
           Inr ((set_obj s F (Future (fu\<lparr>occurred := True, value' := v\<rparr>)))
                  \<lparr>world := run_callbacks s (listeners fu) v (world s)\<rparr>)"
proof -
  let ?t = "set_obj s F (Future (fu\<lparr>occurred := True, value' := v\<rparr>))"
  have sub: "\<And>c. is_Subscription s c \<Longrightarrow> is_Subscription ?t c \<and> callback_of ?t c = callback_of s c"
    using assms(1)
    by (auto simp: is_Subscription_def callback_of_def set_obj_def split: option.splits obj.splits)
  have all: "list_all (is_Subscription ?t) (listeners fu)"
    using assms(2) sub by (simp add: list_all_iff)
  have cb: "run_callbacks ?t (listeners fu) v w = run_callbacks s (listeners fu) v w" for w
    using assms(2) sub by (intro run_callbacks_cong) (simp add: list_all_iff)
  have "resolve_loop (Suc n) ?t F v 0 (length (listeners fu)) =
          Inr (?t\<lparr>world := run_callbacks ?t (drop 0 (listeners fu)) v (world ?t)\<rparr>)"
    using all resolve_loop_Subscriptions [where t = ?t and F = F and i = 0 and n = n and v = v
        and fu = "fu\<lparr>occurred := True, value' := v\<rparr>" and l = "length (listeners fu)"]
    by (simp add: set_obj_def)
  then show ?thesis
    using assms(1) by (simp add: resolve.simps cb) (simp add: set_obj_def)
qed

subsection \<open>Every method keeps the futures that have occurred\<close>

lemma state_of_simps [simp]:
  "state_of (Inl a) = snd a" "state_of (Inr s) = s"
  "state_of_with (Inl a) = snd a" "state_of_with (Inr b) = snd b"
  by (simp_all add: state_of_def state_of_with_def split: prod.splits)

lemma keeps_refl [simp]: "keeps s s"
  by (simp add: keeps_def)

lemma keeps_trans:
  assumes "keeps s t" and "keeps t u"
  shows "keeps s u"
  unfolding keeps_def
proof (intro conjI allI impI)
  show "nxt s \<le> nxt u"
    using assms by (simp add: keeps_def)
next
  fix a fu
  assume a: "a < nxt s \<and> heap s a = Some (Future fu) \<and> occurred fu"
  then obtain fu' where t: "heap t a = Some (Future fu')" "occurred fu'" "listeners fu' = listeners fu"
    using assms(1) unfolding keeps_def by blast
  have "a < nxt t"
    using a assms(1) by (simp add: keeps_def)
  then obtain fu'' where "heap u a = Some (Future fu'')" "occurred fu''" "listeners fu'' = listeners fu'"
    using assms(2) t unfolding keeps_def by blast
  then show "\<exists>fu'. heap u a = Some (Future fu') \<and> occurred fu' \<and> listeners fu' = listeners fu"
    using t by simp
qed

lemma keeps_world: "keeps s0 s \<Longrightarrow> keeps s0 (s\<lparr>world := w\<rparr>)"
  by (simp add: keeps_def)

lemma keeps_set_kind:
  "keeps s0 s \<Longrightarrow> heap s c = Some (Future fu) \<Longrightarrow>
     keeps s0 (set_obj s c (Future (fu\<lparr>kind := k\<rparr>)))"
  by (rule keeps_trans, assumption) (auto simp: keeps_def set_obj_def)

lemma keeps_set_occurred:
  "keeps s0 s \<Longrightarrow> heap s c = Some (Future fu) \<Longrightarrow>
     keeps s0 (set_obj s c (Future (fu\<lparr>occurred := True, value' := v\<rparr>)))"
  by (rule keeps_trans, assumption) (auto simp: keeps_def set_obj_def)

lemma keeps_set_listeners:
  "keeps s0 s \<Longrightarrow> heap s c = Some (Future fu) \<Longrightarrow> \<not> occurred fu \<Longrightarrow>
     keeps s0 (set_obj s c (Future (fu\<lparr>listeners := ls\<rparr>)))"
  by (rule keeps_trans, assumption) (auto simp: keeps_def set_obj_def)

lemma keeps_alloc: "keeps s0 s \<Longrightarrow> alloc s ob = (a, s1) \<Longrightarrow> keeps s0 s1"
  by (rule keeps_trans, assumption) (auto simp: keeps_def alloc_def)

lemma state_of_case_sum [simp]:
  "state_of (case r of Inl e \<Rightarrow> Inl e | Inr x \<Rightarrow> g x) =
     (case r of Inl e \<Rightarrow> snd e | Inr x \<Rightarrow> state_of (g x))"
  "state_of_with (case r of Inl e \<Rightarrow> Inl e | Inr x \<Rightarrow> h x) =
     (case r of Inl e \<Rightarrow> snd e | Inr x \<Rightarrow> state_of_with (h x))"
  by (auto split: sum.splits)

lemma keeps_read_values: "keeps s0 s \<Longrightarrow> keeps s0 (state_of (read_values s c i l))"
proof (induction s c i l arbitrary: rule: read_values.induct)
  case (1 s c i l)
  show ?case
    apply (subst read_values.simps)
    using "1.prems"
    apply (auto split: option.splits obj.splits kind.splits sum.splits
        intro!: "1.IH" keeps_set_kind)
    done
qed

lemma keeps_read_values_Inl:
  "read_values s c i l = Inl (e, b) \<Longrightarrow> keeps s0 s \<Longrightarrow> keeps s0 b"
  using keeps_read_values [of s0 s c i l] by simp

lemma keeps_read_values_Inr:
  "read_values s c i l = Inr b \<Longrightarrow> keeps s0 s \<Longrightarrow> keeps s0 b"
  using keeps_read_values [of s0 s c i l] by simp

lemmas keeps_intros = keeps_set_kind keeps_set_occurred keeps_set_listeners keeps_world

lemma keeps_all:
  "(keeps s0 s \<longrightarrow> keeps s0 (state_of (push n s c v)))"
  "(keeps s0 s \<longrightarrow> keeps s0 (state_of (resolve n s c v)))"
  "(keeps s0 s \<longrightarrow> keeps s0 (state_of (resolve_loop n s c v i l)))"
  "(keeps s0 s \<longrightarrow> keeps s0 (state_of (listen n s x c)))"
  "(keeps s0 s \<longrightarrow> keeps s0 (state_of (listen_loop n s c i l)))"
  "(keeps s0 s \<longrightarrow> keeps s0 (state_of_with (new_listening n s ob x)))"
  "(keeps s0 s \<longrightarrow> keeps s0 (state_of_with (new_LiftFuture n s f xs)))"
  "(keeps s0 s \<longrightarrow> keeps s0 (state_of_with (build n s e)))"
  "(keeps s0 s \<longrightarrow> keeps s0 (state_of_with (build_list n s es)))"
proof (induction n s c v and n s c v and n s c v i l and n s x c and n s c i l and n s ob x
    and n s f xs and n s e and n s es
    rule: push_resolve_resolve_loop_listen_listen_loop_new_listening_new_LiftFuture_build_build_list.induct)
  case (1 s c v)
  then show ?case by (simp add: push.simps)
next
  case (2 n s c v)
  show ?case
  proof (intro impI)
    assume k: "keeps s0 s"
    show "keeps s0 (state_of (push (Suc n) s c v))"
    proof (cases "heap s c")
      case None
      then show ?thesis using k by (simp add: push.simps)
    next
      case (Some ob)
      show ?thesis
      proof (cases ob)
        case (Subscription g p)
        then show ?thesis using k Some by (simp add: push.simps keeps_world)
      next
        case (Future fu)
        note hp = Some Future
        show ?thesis
        proof (cases "kind fu")
          case (MapFuture f p)
          then show ?thesis
            using "2.IH"(1) [OF hp MapFuture] k hp by (simp add: push.simps)
        next
          case (MapToFuture p)
          then show ?thesis
            using "2.IH"(2) [OF hp MapToFuture] k hp by (simp add: push.simps)
        next
          case PureFuture
          then show ?thesis using k hp by (simp add: push.simps)
        next
          case (LiftFuture f futures d l)
          let ?s1 = "set_obj s c (Future (fu\<lparr>kind := LiftFuture f futures (d + 1) l\<rparr>))"
          have k1: "keeps s0 ?s1"
            using k hp by (intro keeps_set_kind) simp_all
          show ?thesis
          proof (cases "d + 1 = l")
            case False
            then show ?thesis using k1 hp LiftFuture by (simp add: push.simps)
          next
            case True
            show ?thesis
            proof (cases "read_values ?s1 c 0 l")
              case (Inl a)
              then show ?thesis
                using keeps_read_values [OF k1, of c 0 l] hp LiftFuture True
                by (simp add: push.simps)
            next
              case (Inr s2)
              have k2: "keeps s0 s2"
                using keeps_read_values [OF k1, of c 0 l] Inr by simp
              show ?thesis
              proof (cases "heap s2 c")
                case None
                then show ?thesis
                  using k2 hp LiftFuture True Inr by (simp add: push.simps)
              next
                case (Some ob2)
                note Some2 = Some
                show ?thesis
                proof (cases ob2)
                  case (Subscription g p)
                  then show ?thesis
                    using k2 hp LiftFuture True Inr Some2 by (simp add: push.simps)
                next
                  case (Future fu2)
                  note Future2 = Future
                  show ?thesis
                  proof (cases "kind fu2")
                    case (LiftFuture f2 vs d2 l2)
                    note Lift2 = LiftFuture
                    have "keeps s0 (state_of (resolve n s2 c (call f2 vs)))"
                      using "2.IH"(3) [OF hp \<open>kind fu = LiftFuture f futures d l\<close> refl True
                          Inr Some2 Future2 Lift2] k2 by simp
                    then show ?thesis
                      using hp \<open>kind fu = LiftFuture f futures d l\<close> True Inr Some2 Future2 Lift2
                      by (simp add: push.simps)
                  qed (use k2 hp \<open>kind fu = LiftFuture f futures d l\<close> True Inr Some2 Future2
                        in \<open>simp_all add: push.simps\<close>)
                qed
              qed
            qed
          qed
        next
          case (ChainFuture f p po)
          show ?thesis
          proof (cases po)
            case True
            then show ?thesis
              using "2.IH"(6) [OF hp ChainFuture] k hp ChainFuture by (simp add: push.simps)
          next
            case False
            let ?s1 = "set_obj s c (Future (fu\<lparr>kind := ChainFuture f p True\<rparr>))"
            have k1: "keeps s0 ?s1"
              using k hp by (intro keeps_set_kind) simp_all
            have kb: "keeps s0 (state_of_with (build n ?s1 (f v)))"
              using "2.IH"(4) [OF hp ChainFuture _ refl] False k1 by simp
            show ?thesis
            proof (cases "build n ?s1 (f v)")
              case (Inl a)
              then show ?thesis
                using kb hp ChainFuture False by (simp add: push.simps)
            next
              case (Inr b)
              obtain g s2 where b: "b = (g, s2)" by (cases b)
              have "keeps s0 (state_of (listen n s2 g c))"
                using "2.IH"(5) [OF hp ChainFuture _ refl Inr b [symmetric]] False kb Inr b
                by simp
              then show ?thesis
                using hp ChainFuture False Inr b by (simp add: push.simps)
            qed
          qed
        next
          case FutureSink
          then show ?thesis using k hp by (simp add: push.simps)
        next
          case (BehaviorFuture b)
          then show ?thesis
            using "2.IH"(7) [OF hp BehaviorFuture] k hp by (simp add: push.simps keeps_world)
        qed
      qed
    qed
  qed
next
  case (3 n s c v)
  then show ?case
    apply (subst resolve.simps)
    apply (auto split: option.splits obj.splits kind.splits sum.splits simp: Let_def
        intro!: keeps_intros)
    done
next
  case (4 n s c v i l)
  then show ?case
    apply (subst resolve_loop.simps)
    apply (auto split: option.splits obj.splits kind.splits sum.splits simp: Let_def
        intro!: keeps_intros)
    done
next
  case (5 n s x o')
  then show ?case
    apply (subst listen.simps)
    apply (auto split: option.splits obj.splits kind.splits sum.splits jsval.splits simp: Let_def
        intro!: keeps_intros)
    done
next
  case (6 n s c i l)
  show ?case
  proof (intro impI)
    assume k: "keeps s0 s"
    show "keeps s0 (state_of (listen_loop n s c i l))"
    proof (cases "i < l")
      case False
      then show ?thesis using k by (simp add: listen_loop.simps [of n s])
    next
      case True
      show ?thesis
      proof (cases "heap s c")
        case None
        then show ?thesis using k True by (simp add: listen_loop.simps [of n s])
      next
        case (Some ob)
        show ?thesis
        proof (cases ob)
          case (Subscription g p)
          then show ?thesis using k True Some by (simp add: listen_loop.simps [of n s])
        next
          case (Future fu)
          show ?thesis
          proof (cases "kind fu")
            case (LiftFuture f futures d deps)
            have k1: "keeps s0 (state_of (listen n s (array_get futures i) c))"
              using "6.IH"(1) [OF True Some Future LiftFuture] k by simp
            show ?thesis
            proof (cases "listen n s (array_get futures i) c")
              case (Inl a)
              then show ?thesis
                using k1 True Some Future LiftFuture by (simp add: listen_loop.simps [of n s])
            next
              case (Inr s1)
              then have "keeps s0 (state_of (listen_loop n s1 c (Suc i) l))"
                using "6.IH"(2) [OF True Some Future LiftFuture Inr] k1 by simp
              then show ?thesis
                using Inr True Some Future LiftFuture by (simp add: listen_loop.simps [of n s])
            qed
          qed (use k True Some Future in \<open>simp_all add: listen_loop.simps [of n s]\<close>)
        qed
      qed
    qed
  qed
next
  case (7 n s ob parent)
  then show ?case
    apply (subst new_listening.simps)
    apply (auto split: option.splits obj.splits kind.splits sum.splits prod.splits simp: Let_def
        intro!: keeps_intros intro: keeps_alloc)
    done
next
  case (8 n s f futures)
  then show ?case
    apply (subst new_LiftFuture.simps)
    apply (auto split: option.splits obj.splits kind.splits sum.splits prod.splits simp: Let_def
        intro!: keeps_intros intro: keeps_alloc)
    done
qed (auto split: sum.splits prod.splits simp: Let_def new_PureFuture_def sinkFuture_def
        build.simps build_list.simps
        intro: keeps_alloc)

subsection \<open>The loop of resolve, on the list it started with\<close>

lemma keeps_push_Inr:
  "push n s c v = Inr s1 \<Longrightarrow> keeps s s1"
  using keeps_all(1) [of s s n c v] by simp

lemma keeps_occurred_at:
  assumes "keeps s s1" "heap s F = Some (Future fu)" "occurred fu" "F < nxt s"
  shows "\<exists>fu1. heap s1 F = Some (Future fu1) \<and> occurred fu1 \<and> listeners fu1 = listeners fu \<and> F < nxt s1"
  using assms unfolding keeps_def by (meson less_le_trans)

lemma resolve_loop_push_all:
  assumes "heap t F = Some (Future fu)" "occurred fu" "F < nxt t" "l = length (listeners fu)"
  shows "resolve_loop n t F v i l = push_all n t (drop i (listeners fu)) v"
  using assms
proof (induction "l - i" arbitrary: i t fu)
  case 0
  then show ?case by (simp add: resolve_loop.simps [of n t])
next
  case (Suc k)
  then have i: "i < length (listeners fu)" by simp
  let ?c = "listeners fu ! i"
  have dr: "drop i (listeners fu) = ?c # drop (Suc i) (listeners fu)"
    using i by (simp add: Cons_nth_drop_Suc)
  show ?case
  proof (cases "push n t ?c v")
    case (Inl a)
    then show ?thesis
      using i Suc.prems by (simp add: resolve_loop.simps [of n t] dr)
  next
    case (Inr t1)
    obtain fu1 where f1: "heap t1 F = Some (Future fu1)" "occurred fu1"
        "listeners fu1 = listeners fu" "F < nxt t1"
      using keeps_occurred_at [OF keeps_push_Inr [OF Inr] Suc.prems(1,2,3)] by blast
    have "resolve_loop n t1 F v (Suc i) l = push_all n t1 (drop (Suc i) (listeners fu1)) v"
      using Suc.hyps(2) Suc.prems(4) f1 by (intro Suc.hyps(1)) simp_all
    then show ?thesis
      using i Suc.prems Inr f1 by (simp add: resolve_loop.simps [of n t] dr)
  qed
qed

lemma resolve_push_all:
  assumes "heap s F = Some (Future fu)" "F < nxt s"
  shows "resolve n s F v =
           push_all n (set_obj s F (Future (fu\<lparr>occurred := True, value' := v\<rparr>))) (listeners fu) v"
  using assms
    resolve_loop_push_all [where t = "set_obj s F (Future (fu\<lparr>occurred := True, value' := v\<rparr>))"
      and F = F and fu = "fu\<lparr>occurred := True, value' := v\<rparr>" and i = 0
      and l = "length (listeners fu)" and n = n and v = v]
  by (simp add: resolve.simps) (simp add: set_obj_def)

lemma listen_seq_unoccurred:
  assumes "heap s F = Some (Future fu)" "\<not> occurred fu"
  shows "listen_seq n s F cs =
           Inr (set_obj s F (Future (fu\<lparr>listeners := listeners fu @ cs\<rparr>)))"
  using assms
proof (induction cs arbitrary: s fu)
  case Nil
  then show ?case by (simp add: set_obj_def fun_upd_idem)
next
  case (Cons c cs)
  let ?fu1 = "fu\<lparr>listeners := listeners fu @ [c]\<rparr>"
  let ?s1 = "set_obj s F (Future ?fu1)"
  have "listen_seq n ?s1 F cs = Inr (set_obj ?s1 F (Future (?fu1\<lparr>listeners := listeners ?fu1 @ cs\<rparr>)))"
    using Cons.prems by (intro Cons.IH) (simp_all add: set_obj_def)
  then show ?case
    using Cons.prems by (simp add: listen.simps) (simp add: set_obj_def)
qed

subsection \<open>Rules for running the methods on a given state\<close>

lemmas observe_defs = occurred_at_def value_at_def listeners_at_def is_Subscription_def
  callback_of_def run_callbacks_def

lemmas run_simps = push.simps resolve.simps resolve_loop.simps listen.simps listen_loop.simps
  new_listening.simps new_LiftFuture.simps build.simps build_list.simps read_values.simps
  alloc_def set_obj_def new_future_def get_value_def array_get_def new_PureFuture_def
  sinkFuture_def new_MapFuture_def new_MapToFuture_def new_ChainFuture_def new_Subscription_def
  new_BehaviorFuture_def changeStateDown_def subscribe_def map_future_def mapTo_def
  of_future_def lift_def chain_future_def

lemma keeps_listeners_at:
  assumes "keeps s s1" "heap s F = Some (Future fu)" "occurred fu" "F < nxt s"
  shows "listeners_at s1 F = listeners fu"
  using keeps_occurred_at [OF assms] by (auto simp: listeners_at_def)

subsection \<open>Terminal listeners\<close>

lemma set_obj_simps [simp]:
  "world (set_obj s a ob) = world s" "nxt (set_obj s a ob) = nxt s"
  "heap (set_obj s a ob) = (heap s)(a \<mapsto> ob)"
  by (simp_all add: set_obj_def)

lemma push_all_append:
  "push_all n s (xs @ ys) v =
     (case push_all n s xs v of Inl e \<Rightarrow> Inl e | Inr s1 \<Rightarrow> push_all n s1 ys v)"
  by (induction xs arbitrary: s) (auto split: sum.splits)

lemma callback_of_world [simp]: "callback_of (s\<lparr>world := w\<rparr>) = callback_of s"
  by (simp add: callback_of_def fun_eq_iff)

lemma is_Subscription_world [simp]: "is_Subscription (s\<lparr>world := w\<rparr>) = is_Subscription s"
  by (simp add: is_Subscription_def fun_eq_iff)

lemma run_callbacks_world [simp]: "run_callbacks (s\<lparr>world := w\<rparr>) = run_callbacks s"
  by (simp add: run_callbacks_def fun_eq_iff)

lemma push_all_Subscriptions:
  "list_all (is_Subscription s) cs \<Longrightarrow>
     push_all (Suc n) s cs v = Inr (s\<lparr>world := run_callbacks s cs v (world s)\<rparr>)"
proof (induction cs arbitrary: s)
  case Nil
  then show ?case by (simp add: run_callbacks_def)
next
  case (Cons c cs)
  let ?s1 = "s\<lparr>world := callback_of s c v (world s)\<rparr>"
  have "push_all (Suc n) ?s1 cs v = Inr (?s1\<lparr>world := run_callbacks ?s1 cs v (world ?s1)\<rparr>)"
    using Cons.prems by (intro Cons.IH) simp
  then show ?case
    using Cons.prems by (simp add: push_Subscription run_callbacks_def)
qed

lemma push_all_terminal:
  "terminal s cs \<Longrightarrow>
     push_all (Suc n) s cs v = Inr (s\<lparr>world := run_callbacks s cs v (world s)\<rparr>)"
  by (rule push_all_Subscriptions) (simp add: terminal_def list_all_iff)

text \<open>Writing a future, or allocating, leaves the allocated subscriptions as they are.\<close>

lemma terminal_set_obj:
  "terminal s cs \<Longrightarrow> heap s a = Some (Future fu) \<Longrightarrow> terminal (set_obj s a (Future fu')) cs"
  by (auto simp: terminal_def list_all_iff is_Subscription_def set_obj_def)

lemma run_callbacks_set_obj:
  "terminal s cs \<Longrightarrow> heap s a = Some (Future fu) \<Longrightarrow>
     run_callbacks (set_obj s a (Future fu')) cs = run_callbacks s cs"
  unfolding fun_eq_iff
  by (intro allI run_callbacks_cong)
     (auto simp: terminal_def list_all_iff is_Subscription_def callback_of_def set_obj_def)

lemma terminal_alloc:
  "terminal s cs \<Longrightarrow> terminal (snd (alloc s ob)) cs"
  by (auto simp: terminal_def list_all_iff is_Subscription_def alloc_def)

lemma run_callbacks_alloc:
  "terminal s cs \<Longrightarrow> run_callbacks (snd (alloc s ob)) cs = run_callbacks s cs"
  unfolding fun_eq_iff
  by (intro allI run_callbacks_cong)
     (auto simp: terminal_def list_all_iff is_Subscription_def callback_of_def alloc_def)

subsection \<open>Constructors and single notifications\<close>

lemma new_listening_unoccurred:
  assumes "heap s p = Some (Future fu)" "\<not> occurred fu" "p \<noteq> nxt s"
  shows "new_listening n s ob (Obj p) =
           Inr (Obj (nxt s),
                s\<lparr>heap := (heap s)(nxt s \<mapsto> ob,
                                     p \<mapsto> Future (fu\<lparr>listeners := listeners fu @ [nxt s]\<rparr>)),
                  nxt := Suc (nxt s)\<rparr>)"
  using assms by (simp add: new_listening.simps listen.simps alloc_def set_obj_def)

lemma new_listening_occurred:
  assumes "heap s p = Some (Future fu)" "occurred fu" "p \<noteq> nxt s"
  shows "new_listening n s ob (Obj p) =
           (case push n (snd (alloc s ob)) (nxt s) (value' fu) of
              Inl e \<Rightarrow> Inl e
            | Inr s2 \<Rightarrow> Inr (Obj (nxt s), s2))"
  using assms by (simp add: new_listening.simps listen.simps alloc_def set_obj_def)

lemma resolve_no_listeners:
  assumes "heap s c = Some (Future fu)" "listeners fu = []"
  shows "resolve n s c v = Inr (set_obj s c (Future (fu\<lparr>occurred := True, value' := v\<rparr>)))"
  using assms by (simp add: resolve.simps resolve_loop.simps)

lemma push_MapFuture:
  assumes "heap s c = Some (Future fu)" "kind fu = MapFuture f p"
  shows "push (Suc n) s c v = resolve n s c (call f [v])"
  using assms by (simp add: push.simps)

text \<open>A future with terminal listeners and one more listener \<open>c\<close>, registered last.\<close>

lemma resolve_terminal_then:
  assumes "heap s F = Some (Future fu)" "F < nxt s" "listeners fu = cs @ [c]" "terminal s cs"
  shows "resolve (Suc n) s F v =
           push (Suc n)
             ((set_obj s F (Future (fu\<lparr>occurred := True, value' := v\<rparr>)))
                \<lparr>world := run_callbacks s cs v (world s)\<rparr>) c v"
proof -
  let ?s1 = "set_obj s F (Future (fu\<lparr>occurred := True, value' := v\<rparr>))"
  have t1: "terminal ?s1 cs" and r1: "run_callbacks ?s1 cs = run_callbacks s cs"
    using assms(1,4) by (simp_all add: terminal_set_obj run_callbacks_set_obj)
  have "resolve (Suc n) s F v = push_all (Suc n) ?s1 (cs @ [c]) v"
    using resolve_push_all [OF assms(1,2)] assms(3) by simp
  also have "\<dots> = push_all (Suc n) (?s1\<lparr>world := run_callbacks ?s1 cs v (world ?s1)\<rparr>) [c] v"
    by (simp add: push_all_append push_all_terminal [OF t1])
  also have "\<dots> = push (Suc n) (?s1\<lparr>world := run_callbacks s cs v (world s)\<rparr>) c v"
    by (cases "push (Suc n) (?s1\<lparr>world := run_callbacks s cs v (world s)\<rparr>) c v")
       (simp_all add: r1)
  finally show ?thesis .
qed

lemma terminal_transfer:
  assumes "terminal s cs" and "nxt s \<le> nxt t"
    and "\<And>c. c < nxt s \<Longrightarrow> is_Subscription s c \<Longrightarrow> heap t c = heap s c"
  shows "terminal t cs" and "run_callbacks t cs = run_callbacks s cs"
proof -
  show "terminal t cs"
    using assms by (auto simp: terminal_def list_all_iff is_Subscription_def)
  show "run_callbacks t cs = run_callbacks s cs"
    unfolding fun_eq_iff using assms
    by (intro allI run_callbacks_cong) (auto simp: terminal_def list_all_iff callback_of_def)
qed

lemma resolve_terminal:
  assumes "heap s F = Some (Future fu)" "terminal s (listeners fu)"
  shows "resolve (Suc n) s F v =
           Inr ((set_obj s F (Future (fu\<lparr>occurred := True, value' := v\<rparr>)))
                  \<lparr>world := run_callbacks s (listeners fu) v (world s)\<rparr>)"
  using assms by (intro resolve_Subscriptions) (simp_all add: terminal_def list_all_iff)

lemma push_ChainFuture_first:
  assumes "heap s c = Some (Future fu)" "kind fu = ChainFuture f p False" "f v = Existing x"
  shows "push (Suc n) s c v = listen n (set_obj s c (Future (fu\<lparr>kind := ChainFuture f p True\<rparr>))) x c"
  using assms by (simp add: push.simps build.simps)

lemma push_ChainFuture_second:
  assumes "heap s c = Some (Future fu)" "kind fu = ChainFuture f p True"
  shows "push (Suc n) s c v = resolve n s c v"
  using assms by (simp add: push.simps)

subsection \<open>The lift future\<close>

lemma read_values_loop:
  assumes "heap t L = Some (Future lobj)"
    and "kind lobj = LiftFuture f (map val_of (take i ps) @ map Obj (drop i ps)) d dep"
    and "i \<le> length ps" and "l = length ps" and "L \<notin> set ps"
    and "\<And>p. p \<in> set (drop i ps) \<Longrightarrow> \<exists>fu. heap t p = Some (Future fu) \<and> value' fu = val_of p"
  shows "read_values t L i l =
           Inr (set_obj t L (Future (lobj\<lparr>kind := LiftFuture f (map val_of ps) d dep\<rparr>)))"
  using assms
proof (induction "l - i" arbitrary: i t lobj)
  case 0
  then have "i = length ps" by simp
  with 0 have "lobj\<lparr>kind := LiftFuture f (map val_of ps) d dep\<rparr> = lobj"
    by simp
  with 0 show ?case
    by (simp add: read_values.simps [of t] set_obj_def fun_upd_idem)
next
  case (Suc k)
  then have i: "i < length ps" by simp
  let ?p = "ps ! i"
  let ?futures = "map val_of (take i ps) @ map Obj (drop i ps)"
  have ag: "array_get ?futures i = Obj ?p"
    using i by (simp add: array_get_def nth_append)
  have "?p \<in> set (drop i ps)"
    using i by (simp add: Cons_nth_drop_Suc [symmetric])
  then obtain fu where fu: "heap t ?p = Some (Future fu)" "value' fu = val_of ?p"
    using Suc.prems(6) by blast
  have gv: "get_value t (Obj ?p) = Inr (val_of ?p)"
    using fu by (simp add: get_value_def)
  have dr: "drop i ps = ?p # drop (Suc i) ps"
    using i by (simp add: Cons_nth_drop_Suc)
  have tk: "take (Suc i) ps = take i ps @ [?p]"
    using i by (simp add: take_Suc_conv_app_nth)
  have upd: "?futures[i := val_of ?p] = map val_of (take (Suc i) ps) @ map Obj (drop (Suc i) ps)"
    using i by (simp add: list_update_append dr tk)
  let ?lobj1 = "lobj\<lparr>kind := LiftFuture f (?futures[i := val_of ?p]) d dep\<rparr>"
  let ?t1 = "set_obj t L (Future ?lobj1)"
  have "read_values ?t1 L (Suc i) l =
          Inr (set_obj ?t1 L (Future (?lobj1\<lparr>kind := LiftFuture f (map val_of ps) d dep\<rparr>)))"
  proof (rule Suc.hyps(1))
    show "k = l - Suc i" using Suc.hyps(2) by simp
    show "heap ?t1 L = Some (Future ?lobj1)" by simp
    show "kind ?lobj1 = LiftFuture f (map val_of (take (Suc i) ps) @ map Obj (drop (Suc i) ps)) d dep"
      using upd by simp
    show "Suc i \<le> length ps" using i by simp
    show "l = length ps" by fact
    show "L \<notin> set ps" by fact
    show "\<exists>fu. heap ?t1 p = Some (Future fu) \<and> value' fu = val_of p" if "p \<in> set (drop (Suc i) ps)" for p
    proof -
      have "p \<in> set (drop i ps)" using that i by (simp add: Cons_nth_drop_Suc [symmetric])
      moreover have "p \<noteq> L" using that Suc.prems(5) by (meson in_set_dropD)
      ultimately show ?thesis using Suc.prems(6) by simp
    qed
  qed
  then show ?case
    using i Suc.prems(1,2,4) ag gv
    by (simp add: read_values.simps [of t] set_obj_def)
qed

lemma listen_loop_appends:
  assumes "heap t L = Some (Future lobj)"
    and "kind lobj = LiftFuture f (map Obj ps) 0 l"
    and "l = length ps" and "i \<le> l" and "distinct ps" and "L \<notin> set ps"
    and "\<And>p. p \<in> set (drop i ps) \<Longrightarrow> \<exists>fu. heap t p = Some (Future fu) \<and> \<not> occurred fu"
  shows "\<exists>t'. listen_loop m t L i l = Inr t' \<and> nxt t' = nxt t \<and> world t' = world t \<and>
           (\<forall>a. heap t' a =
              (if a \<in> set (drop i ps)
               then (case heap t a of
                       Some (Future fu) \<Rightarrow> Some (Future (fu\<lparr>listeners := listeners fu @ [L]\<rparr>))
                     | x \<Rightarrow> x)
               else heap t a))"
  using assms
proof (induction "l - i" arbitrary: i t)
  case 0
  then show ?case
    by (simp add: listen_loop.simps [of m t])
next
  case (Suc k)
  then have i: "i < length ps" by simp
  let ?p = "ps ! i"
  have dr: "drop i ps = ?p # drop (Suc i) ps"
    using i by (simp add: Cons_nth_drop_Suc)
  have "distinct (drop i ps)"
    using Suc.prems(5) by simp
  then have pn: "?p \<notin> set (drop (Suc i) ps)"
    unfolding dr by simp
  have pL: "?p \<noteq> L"
    using i Suc.prems(6) by auto
  obtain fu where fu: "heap t ?p = Some (Future fu)" "\<not> occurred fu"
    using Suc.prems(7) [of ?p] dr by auto
  let ?t1 = "set_obj t ?p (Future (fu\<lparr>listeners := listeners fu @ [L]\<rparr>))"
  have l1: "listen m t (Obj ?p) L = Inr ?t1"
    using fu by (simp add: listen.simps)
  have "\<exists>t'. listen_loop m ?t1 L (Suc i) l = Inr t' \<and> nxt t' = nxt ?t1 \<and> world t' = world ?t1 \<and>
           (\<forall>a. heap t' a =
              (if a \<in> set (drop (Suc i) ps)
               then (case heap ?t1 a of
                       Some (Future fu) \<Rightarrow> Some (Future (fu\<lparr>listeners := listeners fu @ [L]\<rparr>))
                     | x \<Rightarrow> x)
               else heap ?t1 a))"
  proof (rule Suc.hyps(1))
    show "k = l - Suc i" using Suc.hyps(2) by simp
    show "heap ?t1 L = Some (Future lobj)" using Suc.prems(1) pL by simp
    show "kind lobj = LiftFuture f (map Obj ps) 0 l" by fact
    show "l = length ps" by fact
    show "Suc i \<le> l" using i Suc.prems(3) by simp
    show "distinct ps" by fact
    show "L \<notin> set ps" by fact
    show "\<exists>fu. heap ?t1 p = Some (Future fu) \<and> \<not> occurred fu" if "p \<in> set (drop (Suc i) ps)" for p
      using that pn Suc.prems(7) [of p] dr by auto
  qed
  then obtain t' where t': "listen_loop m ?t1 L (Suc i) l = Inr t'" "nxt t' = nxt t" "world t' = world t"
      "\<And>a. heap t' a =
              (if a \<in> set (drop (Suc i) ps)
               then (case heap ?t1 a of
                       Some (Future fu) \<Rightarrow> Some (Future (fu\<lparr>listeners := listeners fu @ [L]\<rparr>))
                     | x \<Rightarrow> x)
               else heap ?t1 a)"
    by auto
  have "listen_loop m t L i l = Inr t'"
    using i Suc.prems(1,2,3) l1 t'(1) by (simp add: listen_loop.simps [of m t] array_get_def)
  moreover have "heap t' a =
              (if a \<in> set (drop i ps)
               then (case heap t a of
                       Some (Future fu) \<Rightarrow> Some (Future (fu\<lparr>listeners := listeners fu @ [L]\<rparr>))
                     | x \<Rightarrow> x)
               else heap t a)" for a
    using t'(4) [of a] pn fu unfolding dr by auto
  ultimately show ?case
    using t'(2,3) by blast
qed

lemma waiting_iff:
  "waiting s p \<longleftrightarrow>
     p < nxt s \<and> (\<exists>fu. heap s p = Some (Future fu) \<and> \<not> occurred fu \<and> terminal s (listeners fu))"
  by (cases "heap s p"; cases "the (heap s p)") (simp_all add: waiting_def)

lemma waitingD:
  assumes "list_all (waiting s) ps" "p \<in> set ps"
  obtains fu where "heap s p = Some (Future fu)" "\<not> occurred fu" "terminal s (listeners fu)"
    "p < nxt s" "listeners_at s p = listeners fu"
proof -
  from assms have "waiting s p"
    by (simp add: list_all_iff)
  then obtain fu where "heap s p = Some (Future fu)" "\<not> occurred fu" "terminal s (listeners fu)"
      "p < nxt s"
    unfolding waiting_iff by blast
  then show thesis
    using that [of fu] by (simp add: listeners_at_def)
qed

lemma lift_inv_terminal:
  assumes "lift_inv s ps f h val_of k R t" "terminal s cs"
  shows "terminal t cs" "run_callbacks t cs = run_callbacks s cs"
  using assms(1) terminal_transfer [OF assms(2), of t]
  by (simp_all add: lift_inv_def)

lemma lift_construct:
  assumes "list_all (waiting s) ps" "distinct ps"
  shows "\<exists>s1 s2. new_LiftFuture m s f (map Obj ps) = Inr (Obj (nxt s), s1) \<and>
           subscribe m s1 (nxt s) h = Inr s2 \<and>
           lift_inv s ps f h val_of 0 {} s2 \<and> world s2 = world s"
proof -
  let ?L = "nxt s"
  let ?lobj = "new_future (LiftFuture f (map Obj ps) 0 (length ps)) :: ('a, 'b) future"
  let ?t = "s\<lparr>heap := (heap s)(?L \<mapsto> Future ?lobj), nxt := Suc ?L\<rparr>"
  have Lps: "?L \<notin> set ps"
    using assms(1) by (auto simp: list_all_iff waiting_def)
  have "\<exists>t'. listen_loop m ?t ?L 0 (length ps) = Inr t' \<and> nxt t' = nxt ?t \<and> world t' = world ?t \<and>
           (\<forall>a. heap t' a =
              (if a \<in> set (drop 0 ps)
               then (case heap ?t a of
                       Some (Future fu) \<Rightarrow> Some (Future (fu\<lparr>listeners := listeners fu @ [?L]\<rparr>))
                     | x \<Rightarrow> x)
               else heap ?t a))"
  proof (rule listen_loop_appends [where lobj = ?lobj and f = f])
    show "heap ?t ?L = Some (Future ?lobj)" by simp
    show "kind ?lobj = LiftFuture f (map Obj ps) 0 (length ps)" by (simp add: new_future_def)
    show "\<exists>fu. heap ?t p = Some (Future fu) \<and> \<not> occurred fu" if "p \<in> set (drop 0 ps)" for p
    proof -
      from that have "p \<in> set ps" by simp
      then show ?thesis
        using Lps by (elim waitingD [OF assms(1)]) auto
    qed
  qed (use assms(2) Lps in simp_all)
  then obtain t' where t': "listen_loop m ?t ?L 0 (length ps) = Inr t'" "nxt t' = Suc ?L"
      "world t' = world s"
      "\<And>a. heap t' a =
              (if a \<in> set ps
               then (case heap ?t a of
                       Some (Future fu) \<Rightarrow> Some (Future (fu\<lparr>listeners := listeners fu @ [?L]\<rparr>))
                     | x \<Rightarrow> x)
               else heap ?t a)"
    by auto
  have c1: "new_LiftFuture m s f (map Obj ps) = Inr (Obj ?L, t')"
    using t'(1) by (simp add: new_LiftFuture.simps alloc_def)
  have hL: "heap t' ?L = Some (Future ?lobj)"
    using t'(4) [of ?L] Lps by simp
  let ?s2 = "t'\<lparr>heap := (heap t')(Suc ?L \<mapsto> Subscription h (Obj ?L),
                                  ?L \<mapsto> Future (?lobj\<lparr>listeners := [Suc ?L]\<rparr>)),
               nxt := Suc (Suc ?L)\<rparr>"
  have c2: "subscribe m t' ?L h = Inr ?s2"
    using hL t'(2) new_listening_unoccurred [of t' ?L ?lobj m "Subscription h (Obj ?L)"]
    by (simp add: subscribe_def new_Subscription_def new_future_def)
  have "lift_inv s ps f h val_of 0 {} ?s2"
    unfolding lift_inv_def
  proof (intro conjI ballI allI impI)
    show "nxt ?s2 = Suc (Suc (nxt s))" by simp
    show "heap ?s2 (nxt s) =
       Some (Future \<lparr>occurred = False, value' = Undefined, listeners = [Suc (nxt s)],
                     kind = LiftFuture f (map Obj ps) 0 (length ps)\<rparr>)"
      by (simp add: new_future_def)
    show "heap ?s2 (Suc (nxt s)) = Some (Subscription h (Obj (nxt s)))" by simp
    show "\<exists>fu. heap s p = Some (Future fu) \<and>
        heap ?s2 p = Some (Future
          (if p \<in> {}
           then fu\<lparr>listeners := listeners fu @ [nxt s], occurred := True, value' := val_of p\<rparr>
           else fu\<lparr>listeners := listeners fu @ [nxt s]\<rparr>))" if "p \<in> set ps" for p
    proof (rule waitingD [OF assms(1) that])
      fix fu assume "heap s p = Some (Future fu)" "p < nxt s"
      then show ?thesis
        using t'(4) [of p] that by auto
    qed
    show "heap ?s2 c = heap s c" if "c < nxt s \<and> is_Subscription s c" for c
    proof (cases "c \<in> set ps")
      case True
      then show ?thesis
        using that by (elim waitingD [OF assms(1)]) (auto simp: is_Subscription_def)
    next
      case False
      then show ?thesis
        using that t'(4) [of c] by auto
    qed
  qed
  then show ?thesis
    using c1 c2 t'(3) by auto
qed

lemma lift_parent_resolve:
  assumes inv: "lift_inv s ps f h val_of k R t"
    and w: "list_all (waiting s) ps" and p: "p \<in> set ps" "p \<notin> R"
  obtains fu where "heap s p = Some (Future fu)" "listeners_at s p = listeners fu"
    "resolve (Suc j) t p (val_of p) =
       push (Suc j)
         ((set_obj t p (Future (fu\<lparr>listeners := listeners fu @ [nxt s], occurred := True,
                                    value' := val_of p\<rparr>)))
            \<lparr>world := run_callbacks s (listeners fu) (val_of p) (world t)\<rparr>) (nxt s) (val_of p)"
proof (rule waitingD [OF w p(1)])
  fix fu assume fu: "heap s p = Some (Future fu)" "terminal s (listeners fu)" "p < nxt s"
    "listeners_at s p = listeners fu"
  let ?fu1 = "fu\<lparr>listeners := listeners fu @ [nxt s]\<rparr>"
  have ht: "heap t p = Some (Future ?fu1)"
    using inv p fu(1) by (auto simp: lift_inv_def)
  have pt: "p < nxt t"
    using inv fu(3) by (simp add: lift_inv_def)
  note tt = lift_inv_terminal [OF inv fu(2)]
  have "resolve (Suc j) t p (val_of p) =
       push (Suc j)
         ((set_obj t p (Future (?fu1\<lparr>occurred := True, value' := val_of p\<rparr>)))
            \<lparr>world := run_callbacks t (listeners fu) (val_of p) (world t)\<rparr>) (nxt s) (val_of p)"
    by (rule resolve_terminal_then [OF ht pt _ tt(1)]) simp
  then show thesis
    using that [of fu] fu(1,4) by (simp add: tt(2))
qed

lemma lift_step:
  fixes s :: "('a, 'w) state"
  assumes inv: "lift_inv s ps f h val_of k R t"
    and w: "list_all (waiting s) ps" and p: "p \<in> set ps" "p \<notin> R"
    and k: "Suc k \<noteq> length ps"
  shows "\<exists>t'. resolve (Suc j) t p (val_of p) = Inr t' \<and>
           lift_inv s ps f h val_of (Suc k) (insert p R) t' \<and>
           world t' = run_callbacks s (listeners_at s p) (val_of p) (world t)"
proof (rule lift_parent_resolve [OF inv w p, of j])
  fix fu :: "('a, 'w) future"
  let ?L = "nxt s"
  let ?fu2 = "fu\<lparr>listeners := listeners fu @ [?L], occurred := True, value' := val_of p\<rparr>"
  let ?t1 = "(set_obj t p (Future ?fu2))\<lparr>world := run_callbacks s (listeners fu) (val_of p) (world t)\<rparr>"
  let ?lobj = "\<lparr>occurred = False, value' = Undefined, listeners = [Suc ?L],
                kind = LiftFuture f (map Obj ps) k (length ps)\<rparr> :: ('a, 'w) future"
  let ?t2 = "set_obj ?t1 ?L (Future (?lobj\<lparr>kind := LiftFuture f (map Obj ps) (Suc k) (length ps)\<rparr>))"
  assume fu: "heap s p = Some (Future fu)" "listeners_at s p = listeners fu"
    and r: "resolve (Suc j) t p (val_of p) = push (Suc j) ?t1 ?L (val_of p)"
  have pL: "p < ?L"
    by (rule waitingD [OF w p(1)])
  have hL: "heap ?t1 ?L = Some (Future ?lobj)"
    using inv pL by (simp add: lift_inv_def)
  have "push (Suc j) ?t1 ?L (val_of p) = Inr ?t2"
    using hL k by (simp add: push.simps)
  moreover have "lift_inv s ps f h val_of (Suc k) (insert p R) ?t2"
    unfolding lift_inv_def
  proof (intro conjI ballI allI impI)
    show "nxt ?t2 = Suc (Suc (nxt s))"
      using inv by (simp add: lift_inv_def)
    show "heap ?t2 (nxt s) =
       Some (Future \<lparr>occurred = False, value' = Undefined, listeners = [Suc (nxt s)],
                     kind = LiftFuture f (map Obj ps) (Suc k) (length ps)\<rparr>)"
      by simp
    show "heap ?t2 (Suc (nxt s)) = Some (Subscription h (Obj (nxt s)))"
      using inv pL by (simp add: lift_inv_def)
    show "\<exists>fu. heap s q = Some (Future fu) \<and>
        heap ?t2 q = Some (Future
          (if q \<in> insert p R
           then fu\<lparr>listeners := listeners fu @ [nxt s], occurred := True, value' := val_of q\<rparr>
           else fu\<lparr>listeners := listeners fu @ [nxt s]\<rparr>))" if "q \<in> set ps" for q
    proof -
      have "q < ?L"
        by (rule waitingD [OF w that])
      then show ?thesis
        using inv that fu(1) by (auto simp: lift_inv_def)
    qed
    show "heap ?t2 c = heap s c" if "c < nxt s \<and> is_Subscription s c" for c
      using inv that fu(1) by (auto simp: lift_inv_def is_Subscription_def)
  qed
  moreover have "world ?t2 = run_callbacks s (listeners_at s p) (val_of p) (world t)"
    using fu(2) by simp
  ultimately show ?thesis
    using r by auto
qed

lemma lift_last:
  fixes s :: "('a, 'w) state"
  assumes inv: "lift_inv s ps f h val_of k R t"
    and w: "list_all (waiting s) ps" and p: "p \<in> set ps" "p \<notin> R"
    and k: "Suc k = length ps" and all: "set ps \<subseteq> insert p R"
  shows "\<exists>t'. resolve (Suc (Suc j)) t p (val_of p) = Inr t' \<and>
           occurred_at t' (nxt s) \<and> value_at t' (nxt s) = call f (map val_of ps) \<and>
           world t' = h (call f (map val_of ps))
                        (run_callbacks s (listeners_at s p) (val_of p) (world t))"
proof (rule lift_parent_resolve [OF inv w p, of "Suc j"])
  fix fu :: "('a, 'w) future"
  let ?L = "nxt s"
  let ?fu2 = "fu\<lparr>listeners := listeners fu @ [?L], occurred := True, value' := val_of p\<rparr>"
  let ?w1 = "run_callbacks s (listeners fu) (val_of p) (world t)"
  let ?t1 = "(set_obj t p (Future ?fu2))\<lparr>world := ?w1\<rparr>"
  let ?lobj = "\<lparr>occurred = False, value' = Undefined, listeners = [Suc ?L],
                kind = LiftFuture f (map Obj ps) (Suc k) (length ps)\<rparr> :: ('a, 'w) future"
  let ?t2 = "set_obj ?t1 ?L (Future ?lobj)"
  let ?t3 = "set_obj ?t2 ?L (Future (?lobj\<lparr>kind := LiftFuture f (map val_of ps) (Suc k) (length ps)\<rparr>))"
  assume fu: "heap s p = Some (Future fu)" "listeners_at s p = listeners fu"
    and r: "resolve (Suc (Suc j)) t p (val_of p) = push (Suc (Suc j)) ?t1 ?L (val_of p)"
  have less: "q < ?L" if "q \<in> set ps" for q
    by (rule waitingD [OF w that])
  have Lps: "?L \<notin> set ps"
    using less by blast
  have hL: "heap ?t1 ?L =
      Some (Future \<lparr>occurred = False, value' = Undefined, listeners = [Suc ?L],
                     kind = LiftFuture f (map Obj ps) k (length ps)\<rparr>)"
    using inv less [OF p(1)] by (simp add: lift_inv_def)
  have rv: "read_values ?t2 ?L 0 (length ps) = Inr ?t3"
  proof (rule read_values_loop [where f = f])
    show "heap ?t2 ?L = Some (Future ?lobj)" by simp
    show "kind ?lobj = LiftFuture f (map val_of (take 0 ps) @ map Obj (drop 0 ps)) (Suc k) (length ps)"
      by simp
    show "\<exists>fu. heap ?t2 q = Some (Future fu) \<and> value' fu = val_of q" if "q \<in> set (drop 0 ps)" for q
    proof (cases "q = p")
      case True
      then show ?thesis using less [OF p(1)] by simp
    next
      case False
      with that all have "q \<in> R" "q \<in> set ps" by auto
      then show ?thesis
        using inv False less [of q] by (auto simp: lift_inv_def)
    qed
  qed (use Lps in simp_all)
  have hS: "heap ?t3 (Suc ?L) = Some (Subscription h (Obj ?L))"
    using inv less [OF p(1)] by (simp add: lift_inv_def)
  have "push (Suc (Suc j)) ?t1 ?L (val_of p) = resolve (Suc j) ?t3 ?L (call f (map val_of ps))"
    using hL k rv by (simp add: push.simps)
  also have "\<dots> = Inr ((set_obj ?t3 ?L (Future \<lparr>occurred = True, value' = call f (map val_of ps),
                listeners = [Suc ?L], kind = LiftFuture f (map val_of ps) (Suc k) (length ps)\<rparr>))
              \<lparr>world := h (call f (map val_of ps)) ?w1\<rparr>)"
    using hS by (simp add: resolve.simps resolve_loop.simps push.simps)
  finally show ?thesis
    using r fu(2) by (simp add: occurred_at_def value_at_def)
qed

lemma resolve_seq_append:
  "resolve_seq n s (xs @ ys) val_of =
     (case resolve_seq n s xs val_of of Inl e \<Rightarrow> Inl e | Inr s1 \<Rightarrow> resolve_seq n s1 ys val_of)"
  by (induction xs arbitrary: s) (auto split: sum.splits)

lemma notified_snoc:
  "notified s val_of (xs @ [p]) w =
     run_callbacks s (listeners_at s p) (val_of p) (notified s val_of xs w)"
  by (simp add: notified_def)

lemma lift_prefix:
  fixes s :: "('a, 'w) state"
  assumes inv: "lift_inv s ps f h val_of k R t"
    and w: "list_all (waiting s) ps"
    and xs: "distinct xs" "set xs \<subseteq> set ps" "set xs \<inter> R = {}"
    and k: "k + length xs < length ps"
  shows "\<exists>t'. resolve_seq (Suc j) t xs val_of = Inr t' \<and>
           lift_inv s ps f h val_of (k + length xs) (R \<union> set xs) t' \<and>
           world t' = notified s val_of xs (world t)"
  using inv xs k
proof (induction xs arbitrary: k R t)
  case Nil
  then show ?case by (simp add: notified_def)
next
  case (Cons p xs)
  have "\<exists>t1. resolve (Suc j) t p (val_of p) = Inr t1 \<and>
           lift_inv s ps f h val_of (Suc k) (insert p R) t1 \<and>
           world t1 = run_callbacks s (listeners_at s p) (val_of p) (world t)"
    using Cons.prems by (intro lift_step [OF _ w]) auto
  then obtain t1 where t1: "resolve (Suc j) t p (val_of p) = Inr t1"
      "lift_inv s ps f h val_of (Suc k) (insert p R) t1"
      "world t1 = run_callbacks s (listeners_at s p) (val_of p) (world t)"
    by blast
  have "\<exists>t'. resolve_seq (Suc j) t1 xs val_of = Inr t' \<and>
           lift_inv s ps f h val_of (Suc k + length xs) (insert p R \<union> set xs) t' \<and>
           world t' = notified s val_of xs (world t1)"
    using Cons.prems by (intro Cons.IH [OF t1(2)]) auto
  then show ?case
    using t1 by (auto simp: notified_def)
qed

subsection \<open>The chain future\<close>

text \<open>The parent has not occurred when the chain is made, and the bind function returns a
  future that exists already.\<close>

lemma chain_unoccurred:
  assumes F: "heap s F = Some (Future fuF)" "F < nxt s" "\<not> occurred fuF" "terminal s (listeners fuF)"
    and G: "heap s G = Some (Future fuG)" "G < nxt s" "terminal s (listeners fuG)"
    and FG: "F \<noteq> G"
    and f: "f v = Existing (Obj G)"
  shows "\<exists>s1 s2.
           chain_future n s F f = Inr (Obj (nxt s), s1) \<and>
           subscribe n s1 (nxt s) h = Inr s2 \<and>
           \<not> occurred_at s2 (nxt s) \<and> world s2 = world s \<and>
           (\<not> occurred fuG \<longrightarrow>
              (\<exists>s3 s4.
                 resolve (Suc k) s2 F v = Inr s3 \<and>
                 \<not> occurred_at s3 (nxt s) \<and>
                 world s3 = run_callbacks s (listeners fuF) v (world s) \<and>
                 resolve (Suc (Suc k)) s3 G u = Inr s4 \<and>
                 occurred_at s4 (nxt s) \<and> value_at s4 (nxt s) = u \<and>
                 world s4 = h u (run_callbacks s (listeners fuG) u (world s3)))) \<and>
           (\<not> occurred fuG \<longrightarrow>
              (\<exists>s3 s4.
                 resolve (Suc k) s2 G u = Inr s3 \<and>
                 \<not> occurred_at s3 (nxt s) \<and>
                 world s3 = run_callbacks s (listeners fuG) u (world s) \<and>
                 resolve (Suc (Suc (Suc k))) s3 F v = Inr s4 \<and>
                 occurred_at s4 (nxt s) \<and> value_at s4 (nxt s) = u \<and>
                 world s4 = h u (run_callbacks s (listeners fuF) v (world s3)))) \<and>
           (occurred fuG \<longrightarrow>
              (\<exists>s3.
                 resolve (Suc (Suc (Suc k))) s2 F v = Inr s3 \<and>
                 occurred_at s3 (nxt s) \<and> value_at s3 (nxt s) = value' fuG \<and>
                 world s3 = h (value' fuG) (run_callbacks s (listeners fuF) v (world s))))"
proof -
  let ?C = "nxt s" and ?S = "Suc (nxt s)"
  have ne: "F \<noteq> ?C" "F \<noteq> ?S" "G \<noteq> ?C" "G \<noteq> ?S" "G \<noteq> F"
    using F(2) G(2) FG by simp_all
  let ?fuF1 = "fuF\<lparr>listeners := listeners fuF @ [?C]\<rparr>"
  let ?Ch = "new_future (ChainFuture f (Obj F) False) :: ('a, 'b) future"
  let ?s1 = "s\<lparr>heap := (heap s)(?C \<mapsto> Future ?Ch, F \<mapsto> Future ?fuF1), nxt := ?S\<rparr>"
  let ?s2 = "s\<lparr>heap := (heap s)(?C \<mapsto> Future (?Ch\<lparr>listeners := [?S]\<rparr>), F \<mapsto> Future ?fuF1,
                                   ?S \<mapsto> Subscription h (Obj ?C)), nxt := Suc ?S\<rparr>"
  have c1: "chain_future n s F f = Inr (Obj ?C, ?s1)"
    using F ne by (simp add: chain_future_def new_ChainFuture_def new_listening_unoccurred)
  have c2: "subscribe n ?s1 ?C h = Inr ?s2"
    using ne
    by (simp add: subscribe_def new_Subscription_def new_listening_unoccurred new_future_def)
       (auto simp: fun_upd_twist intro!: state.equality)
  have c3: "\<not> occurred_at ?s2 ?C" "world ?s2 = world s"
    using ne by (simp_all add: occurred_at_def new_future_def)
  have subF: "\<And>c. c < nxt s \<Longrightarrow> is_Subscription s c \<Longrightarrow> c \<noteq> F \<and> c \<noteq> G"
    using F(1) G(1) by (auto simp: is_Subscription_def)
  note tr = terminal_transfer
  have tF2: "terminal ?s2 (listeners fuF)" "run_callbacks ?s2 (listeners fuF) = run_callbacks s (listeners fuF)"
    using subF by (auto intro!: tr [OF F(4)])
  have tG2: "terminal ?s2 (listeners fuG)" "run_callbacks ?s2 (listeners fuG) = run_callbacks s (listeners fuG)"
    using subF by (auto intro!: tr [OF G(3)])
  have RF: "resolve (Suc m) ?s2 F v =
          push (Suc m)
            ((set_obj ?s2 F (Future (?fuF1\<lparr>occurred := True, value' := v\<rparr>)))
               \<lparr>world := run_callbacks s (listeners fuF) v (world s)\<rparr>) ?C v" for m
    using F(2) ne resolve_terminal_then [OF _ _ _ tF2(1), where F = F and fu = ?fuF1 and c = ?C
        and n = m and v = v]
    by (simp add: tF2(2))
  have A: "\<exists>s3 s4.
             resolve (Suc k) ?s2 F v = Inr s3 \<and>
             \<not> occurred_at s3 ?C \<and>
             world s3 = run_callbacks s (listeners fuF) v (world s) \<and>
             resolve (Suc (Suc k)) s3 G u = Inr s4 \<and>
             occurred_at s4 ?C \<and> value_at s4 ?C = u \<and>
             world s4 = h u (run_callbacks s (listeners fuG) u (world s3))"
    if nG: "\<not> occurred fuG"
  proof -
    let ?fuG1 = "fuG\<lparr>listeners := listeners fuG @ [?C]\<rparr>"
    let ?s3 = "s\<lparr>heap := (heap s)(?C \<mapsto> Future (?Ch\<lparr>listeners := [?S], kind := ChainFuture f (Obj F) True\<rparr>),
                                     F \<mapsto> Future (?fuF1\<lparr>occurred := True, value' := v\<rparr>),
                                     ?S \<mapsto> Subscription h (Obj ?C),
                                     G \<mapsto> Future ?fuG1),
                 nxt := Suc ?S, world := run_callbacks s (listeners fuF) v (world s)\<rparr>"
    have r3: "resolve (Suc k) ?s2 F v = Inr ?s3"
      unfolding RF using ne G(1) nG f
      by (simp add: push.simps build.simps listen.simps set_obj_def new_future_def)
         (auto simp: fun_upd_twist intro!: state.equality)
    have o3: "\<not> occurred_at ?s3 ?C" "world ?s3 = run_callbacks s (listeners fuF) v (world s)"
      using ne by (simp_all add: occurred_at_def new_future_def)
    have tG3: "terminal ?s3 (listeners fuG)"
        "run_callbacks ?s3 (listeners fuG) = run_callbacks s (listeners fuG)"
      using subF by (auto intro!: tr [OF G(3)])
    have RG: "resolve (Suc (Suc k)) ?s3 G u =
          push (Suc (Suc k))
            ((set_obj ?s3 G (Future (?fuG1\<lparr>occurred := True, value' := u\<rparr>)))
               \<lparr>world := run_callbacks s (listeners fuG) u (world ?s3)\<rparr>) ?C u"
      using G(2) ne resolve_terminal_then [OF _ _ _ tG3(1), where F = G and fu = ?fuG1 and c = ?C
        and n = "Suc k" and v = u, unfolded tG3(2)]
      by simp
    have r4: "\<exists>s4. resolve (Suc (Suc k)) ?s3 G u = Inr s4 \<and>
             occurred_at s4 ?C \<and> value_at s4 ?C = u \<and>
             world s4 = h u (run_callbacks s (listeners fuG) u (world ?s3))"
      unfolding RG using ne
      by (simp add: push.simps resolve.simps resolve_loop.simps set_obj_def new_future_def
          occurred_at_def value_at_def)
    from r3 o3 r4 show ?thesis
      by (metis (no_types, lifting))
  qed
  have B: "\<exists>s3 s4.
             resolve (Suc k) ?s2 G u = Inr s3 \<and>
             \<not> occurred_at s3 ?C \<and>
             world s3 = run_callbacks s (listeners fuG) u (world s) \<and>
             resolve (Suc (Suc (Suc k))) s3 F v = Inr s4 \<and>
             occurred_at s4 ?C \<and> value_at s4 ?C = u \<and>
             world s4 = h u (run_callbacks s (listeners fuF) v (world s3))"
    if nG: "\<not> occurred fuG"
  proof -
    let ?s3 = "s\<lparr>heap := (heap s)(?C \<mapsto> Future (?Ch\<lparr>listeners := [?S]\<rparr>),
                                     F \<mapsto> Future ?fuF1,
                                     ?S \<mapsto> Subscription h (Obj ?C),
                                     G \<mapsto> Future (fuG\<lparr>occurred := True, value' := u\<rparr>)),
                 nxt := Suc ?S, world := run_callbacks s (listeners fuG) u (world s)\<rparr>"
    have r3: "resolve (Suc k) ?s2 G u = Inr ?s3"
      using ne G(1) resolve_terminal [where s = ?s2 and F = G and fu = fuG and n = k and v = u,
          unfolded tG2(2)] tG2(1)
      by (simp add: set_obj_def)
    have o3: "\<not> occurred_at ?s3 ?C" "world ?s3 = run_callbacks s (listeners fuG) u (world s)"
      using ne by (simp_all add: occurred_at_def new_future_def)
    have tF3: "terminal ?s3 (listeners fuF)"
        "run_callbacks ?s3 (listeners fuF) = run_callbacks s (listeners fuF)"
      using subF by (auto intro!: tr [OF F(4)])
    have RF3: "resolve (Suc (Suc (Suc k))) ?s3 F v =
          push (Suc (Suc (Suc k)))
            ((set_obj ?s3 F (Future (?fuF1\<lparr>occurred := True, value' := v\<rparr>)))
               \<lparr>world := run_callbacks s (listeners fuF) v (world ?s3)\<rparr>) ?C v"
      using F(2) ne resolve_terminal_then [OF _ _ _ tF3(1), where F = F and fu = ?fuF1 and c = ?C
        and n = "Suc (Suc k)" and v = v, unfolded tF3(2)]
      by simp
    have r4: "\<exists>s4. resolve (Suc (Suc (Suc k))) ?s3 F v = Inr s4 \<and>
             occurred_at s4 ?C \<and> value_at s4 ?C = u \<and>
             world s4 = h u (run_callbacks s (listeners fuF) v (world ?s3))"
      unfolding RF3 using ne f
      by (simp add: push.simps build.simps listen.simps resolve.simps resolve_loop.simps
          set_obj_def new_future_def occurred_at_def value_at_def)
    from r3 o3 r4 show ?thesis
      by (metis (no_types, lifting))
  qed
  have C: "\<exists>s3.
             resolve (Suc (Suc (Suc k))) ?s2 F v = Inr s3 \<and>
             occurred_at s3 ?C \<and> value_at s3 ?C = value' fuG \<and>
             world s3 = h (value' fuG) (run_callbacks s (listeners fuF) v (world s))"
    if oG: "occurred fuG"
    unfolding RF using ne f G(1) oG
    by (simp add: push.simps build.simps listen.simps resolve.simps resolve_loop.simps
        set_obj_def new_future_def occurred_at_def value_at_def)
  from c1 c2 c3 A B C show ?thesis
    by (metis (no_types, lifting))
qed

text \<open>The bind function makes its future with \<open>Future.of\<close>.\<close>

lemma chain_of_pure:
  assumes F: "heap s F = Some (Future fuF)" "F < nxt s" "\<not> occurred fuF" "terminal s (listeners fuF)"
    and f: "f v = OfE u"
  shows "\<exists>s1 s2 s3.
           chain_future n s F f = Inr (Obj (nxt s), s1) \<and>
           subscribe n s1 (nxt s) h = Inr s2 \<and>
           \<not> occurred_at s2 (nxt s) \<and> world s2 = world s \<and>
           resolve (Suc (Suc (Suc k))) s2 F v = Inr s3 \<and>
           occurred_at s3 (nxt s) \<and> value_at s3 (nxt s) = u \<and>
           world s3 = h u (run_callbacks s (listeners fuF) v (world s))"
proof -
  let ?C = "nxt s" and ?S = "Suc (nxt s)"
  have ne: "F \<noteq> ?C" "F \<noteq> ?S" "F \<noteq> Suc ?S"
    using F(2) by simp_all
  let ?fuF1 = "fuF\<lparr>listeners := listeners fuF @ [?C]\<rparr>"
  let ?Ch = "new_future (ChainFuture f (Obj F) False) :: ('a, 'b) future"
  let ?s1 = "s\<lparr>heap := (heap s)(?C \<mapsto> Future ?Ch, F \<mapsto> Future ?fuF1), nxt := ?S\<rparr>"
  let ?s2 = "s\<lparr>heap := (heap s)(?C \<mapsto> Future (?Ch\<lparr>listeners := [?S]\<rparr>), F \<mapsto> Future ?fuF1,
                                   ?S \<mapsto> Subscription h (Obj ?C)), nxt := Suc ?S\<rparr>"
  have c1: "chain_future n s F f = Inr (Obj ?C, ?s1)"
    using F ne by (simp add: chain_future_def new_ChainFuture_def new_listening_unoccurred)
  have c2: "subscribe n ?s1 ?C h = Inr ?s2"
    using ne
    by (simp add: subscribe_def new_Subscription_def new_listening_unoccurred new_future_def)
       (auto simp: fun_upd_twist intro!: state.equality)
  have c3: "\<not> occurred_at ?s2 ?C" "world ?s2 = world s"
    using ne by (simp_all add: occurred_at_def new_future_def)
  have subF: "\<And>c. c < nxt s \<Longrightarrow> is_Subscription s c \<Longrightarrow> c \<noteq> F"
    using F(1) by (auto simp: is_Subscription_def)
  have tF2: "terminal ?s2 (listeners fuF)" "run_callbacks ?s2 (listeners fuF) = run_callbacks s (listeners fuF)"
    using subF by (auto intro!: terminal_transfer [OF F(4)])
  have RF: "resolve (Suc m) ?s2 F v =
          push (Suc m)
            ((set_obj ?s2 F (Future (?fuF1\<lparr>occurred := True, value' := v\<rparr>)))
               \<lparr>world := run_callbacks s (listeners fuF) v (world s)\<rparr>) ?C v" for m
    using F(2) ne resolve_terminal_then [OF _ _ _ tF2(1), where F = F and fu = ?fuF1 and c = ?C
        and n = m and v = v]
    by (simp add: tF2(2))
  have "\<exists>s3. resolve (Suc (Suc (Suc k))) ?s2 F v = Inr s3 \<and>
             occurred_at s3 ?C \<and> value_at s3 ?C = u \<and>
             world s3 = h u (run_callbacks s (listeners fuF) v (world s))"
    unfolding RF using ne f
    by (simp add: push.simps build.simps listen.simps resolve.simps resolve_loop.simps
        new_PureFuture_def alloc_def set_obj_def new_future_def occurred_at_def value_at_def)
  with c1 c2 c3 show ?thesis
    by (metis (no_types, lifting))
qed

text \<open>The chain is made when its parent has already occurred.\<close>

lemma chain_on_occurred:
  assumes F: "heap s F = Some (Future fuF)" "F < nxt s" "occurred fuF"
    and G: "heap s G = Some (Future fuG)" "G < nxt s" "terminal s (listeners fuG)"
    and FG: "F \<noteq> G"
    and f: "f (value' fuF) = Existing (Obj G)"
  shows "\<exists>s1 s2.
           chain_future (Suc (Suc n)) s F f = Inr (Obj (nxt s), s1) \<and>
           subscribe (Suc n) s1 (nxt s) h = Inr s2 \<and>
           (\<not> occurred fuG \<longrightarrow>
              \<not> occurred_at s2 (nxt s) \<and> world s2 = world s \<and>
              (\<exists>s3. resolve (Suc (Suc k)) s2 G u = Inr s3 \<and>
                 occurred_at s3 (nxt s) \<and> value_at s3 (nxt s) = u \<and>
                 world s3 = h u (run_callbacks s (listeners fuG) u (world s)))) \<and>
           (occurred fuG \<longrightarrow>
              occurred_at s1 (nxt s) \<and> value_at s1 (nxt s) = value' fuG \<and>
              world s2 = h (value' fuG) (world s))"
proof (cases "occurred fuG")
  case True
  have ne: "F \<noteq> nxt s" "G \<noteq> nxt s" "G \<noteq> F"
    using F(2) G(2) FG by simp_all
  show ?thesis
    using True F(1,3) G(1) f ne
    by (simp add: run_simps observe_defs)
next
  case False
  let ?C = "nxt s" and ?S = "Suc (nxt s)"
  have ne: "F \<noteq> ?C" "F \<noteq> ?S" "G \<noteq> ?C" "G \<noteq> ?S" "G \<noteq> F"
    using F(2) G(2) FG by simp_all
  let ?fuG1 = "fuG\<lparr>listeners := listeners fuG @ [?C]\<rparr>"
  let ?Ch = "(new_future (ChainFuture f (Obj F) False) :: ('a, 'b) future)\<lparr>kind := ChainFuture f (Obj F) True\<rparr>"
  let ?s1 = "s\<lparr>heap := (heap s)(?C \<mapsto> Future ?Ch, G \<mapsto> Future ?fuG1), nxt := ?S\<rparr>"
  let ?s2 = "s\<lparr>heap := (heap s)(?C \<mapsto> Future (?Ch\<lparr>listeners := [?S]\<rparr>), G \<mapsto> Future ?fuG1,
                                   ?S \<mapsto> Subscription h (Obj ?C)), nxt := Suc ?S\<rparr>"
  have c1: "chain_future (Suc (Suc n)) s F f = Inr (Obj ?C, ?s1)"
    using F(1,3) G(1) False f ne
    by (simp add: chain_future_def new_ChainFuture_def new_listening_occurred push.simps
        build.simps listen.simps alloc_def set_obj_def new_future_def)
  have c2: "subscribe (Suc n) ?s1 ?C h = Inr ?s2"
    using ne
    by (simp add: subscribe_def new_Subscription_def new_listening_unoccurred new_future_def)
       (auto simp: fun_upd_twist intro!: state.equality)
  have c3: "\<not> occurred_at ?s2 ?C" "world ?s2 = world s"
    using ne by (simp_all add: occurred_at_def new_future_def)
  have subG: "\<And>c. c < nxt s \<Longrightarrow> is_Subscription s c \<Longrightarrow> c \<noteq> G"
    using G(1) by (auto simp: is_Subscription_def)
  have tG2: "terminal ?s2 (listeners fuG)" "run_callbacks ?s2 (listeners fuG) = run_callbacks s (listeners fuG)"
    using subG by (auto intro!: terminal_transfer [OF G(3)])
  have RG: "resolve (Suc (Suc k)) ?s2 G u =
          push (Suc (Suc k))
            ((set_obj ?s2 G (Future (?fuG1\<lparr>occurred := True, value' := u\<rparr>)))
               \<lparr>world := run_callbacks s (listeners fuG) u (world s)\<rparr>) ?C u"
    using G(2) ne resolve_terminal_then [OF _ _ _ tG2(1), where F = G and fu = ?fuG1 and c = ?C
        and n = "Suc k" and v = u]
    by (simp add: tG2(2))
  have "\<exists>s3. resolve (Suc (Suc k)) ?s2 G u = Inr s3 \<and>
             occurred_at s3 ?C \<and> value_at s3 ?C = u \<and>
             world s3 = h u (run_callbacks s (listeners fuG) u (world s))"
    unfolding RG using ne
    by (simp add: push.simps resolve.simps resolve_loop.simps set_obj_def new_future_def
        occurred_at_def value_at_def)
  with c1 c2 c3 False show ?thesis
    by (metis (no_types, lifting))
qed

section \<open>The claims\<close>

text \<open>
  C1, the counterexample. A sink with one subscription that logs what it is given is
  resolved with 1 and then again with 2. The second call returns normally, the stored
  value changes from 1 to 2 and the subscription is notified a second time.
\<close>

theorem second_resolve_not_rejected:
  "\<not> isl (resolve (Suc 0) sink_subscribed 0 (Prim 1)) \<and>
   value_at (state_of (resolve (Suc 0) sink_subscribed 0 (Prim 1))) 0 = Prim 1 \<and>
   world (state_of (resolve (Suc 0) sink_subscribed 0 (Prim 1))) = [Prim 1] \<and>
   \<not> isl (resolve (Suc 0) (state_of (resolve (Suc 0) sink_subscribed 0 (Prim 1))) 0 (Prim 2)) \<and>
   value_at (state_of (resolve (Suc 0) (state_of (resolve (Suc 0) sink_subscribed 0 (Prim 1))) 0 (Prim 2))) 0
     = Prim 2 \<and>
   world (state_of (resolve (Suc 0) (state_of (resolve (Suc 0) sink_subscribed 0 (Prim 1))) 0 (Prim 2)))
     = [Prim 1, Prim 2]"
  by (simp add: run_simps observe_defs sink_subscribed_def init_state_def print_def state_of_def)

text \<open>
  C1, as amended. \<open>resolve\<close> has no check of \<open>occurred\<close>. On a future that has already
  occurred, \<open>resolve(v)\<close> stores \<open>v\<close> over the old value and is \<open>push(v)\<close> on every
  listener again, in registration order; with subscription listeners it returns normally
  and every subscription's function runs once more, on \<open>v\<close>.
\<close>

theorem resolve_again_overwrites:
  assumes "heap s F = Some (Future fu)" and "occurred fu" and "F < nxt s"
  shows "resolve n s F v = push_all n (set_obj s F (Future (fu\<lparr>value' := v\<rparr>))) (listeners fu) v \<and>
         (list_all (is_Subscription s) (listeners fu) \<longrightarrow>
            (\<exists>s2. resolve (Suc n) s F v = Inr s2 \<and>
                  occurred_at s2 F \<and> value_at s2 F = v \<and> listeners_at s2 F = listeners fu \<and>
                  world s2 = run_callbacks s (listeners fu) v (world s)))"
proof (intro conjI impI)
  have same: "fu\<lparr>occurred := True, value' := v\<rparr> = fu\<lparr>value' := v\<rparr>"
    using assms(2) by simp
  show "resolve n s F v = push_all n (set_obj s F (Future (fu\<lparr>value' := v\<rparr>))) (listeners fu) v"
    using resolve_push_all [OF assms(1,3), of n v] same by simp
  assume "list_all (is_Subscription s) (listeners fu)"
  then show "\<exists>s2. resolve (Suc n) s F v = Inr s2 \<and>
                  occurred_at s2 F \<and> value_at s2 F = v \<and> listeners_at s2 F = listeners fu \<and>
                  world s2 = run_callbacks s (listeners fu) v (world s)"
    using resolve_Subscriptions [OF assms(1), of n v]
    by (simp add: occurred_at_def value_at_def listeners_at_def set_obj_def)
qed

text \<open>
  The witness of the amended C1, on the state of the counterexample.
\<close>

theorem resolve_again_overwrites_witness:
  "resolve (Suc 0) (state_of (resolve (Suc 0) sink_subscribed 0 (Prim 1))) 0 (Prim 2) =
     Inr ((state_of (resolve (Suc 0) sink_subscribed 0 (Prim 1)))
            \<lparr>heap := [0 \<mapsto> Future \<lparr>occurred = True, value' = Prim 2, listeners = [1], kind = FutureSink\<rparr>,
                      1 \<mapsto> Subscription print (Obj 0)],
             world := [Prim 1, Prim 2]\<rparr>)"
proof -
  let ?s = "state_of (resolve (Suc 0) sink_subscribed 0 (Prim 1))"
  let ?fu = "\<lparr>occurred = True, value' = Prim 1, listeners = [1], kind = FutureSink\<rparr>
               :: (int, int jsval list) future"
  have s: "?s = \<lparr>heap = [0 \<mapsto> Future ?fu, 1 \<mapsto> Subscription print (Obj 0)], nxt = 2, world = [Prim 1]\<rparr>"
    by (simp add: run_simps observe_defs sink_subscribed_def init_state_def print_def state_of_def
        fun_upd_twist)
  have h: "heap ?s 0 = Some (Future ?fu)" "occurred ?fu" "0 < nxt ?s"
    unfolding s by simp_all
  have subs: "list_all (is_Subscription ?s) (listeners ?fu)"
    unfolding s by (simp add: is_Subscription_def)
  show ?thesis
    using resolve_again_overwrites [OF h, of 0 "Prim 2"] subs
    unfolding s
    by (auto simp: run_simps observe_defs print_def fun_upd_twist)
qed

text \<open>
  C2. For a future that has not occurred, a sequence of \<open>listen\<close> calls appends the
  consumers to its listeners in call order, and \<open>resolve(v)\<close> then is \<open>push(v)\<close> on
  each listener, once each and in that order, up to the first \<open>push\<close> that raises (an
  exception leaves \<open>resolve\<close> at once). When the listeners are subscriptions, no
  \<open>push\<close> raises: \<open>resolve\<close> returns, the future has occurred with value \<open>v\<close>, and
  the world is the one in which every subscription's function has run once on \<open>v\<close>, in
  registration order.
\<close>

theorem resolve_delivers_in_registration_order:
  assumes "heap s F = Some (Future fu)" and "\<not> occurred fu" and "F < nxt s"
  shows "listen_seq n s F cs = Inr (set_obj s F (Future (fu\<lparr>listeners := listeners fu @ cs\<rparr>))) \<and>
         resolve m (set_obj s F (Future (fu\<lparr>listeners := listeners fu @ cs\<rparr>))) F v =
           push_all m
             (set_obj s F (Future (fu\<lparr>listeners := listeners fu @ cs, occurred := True, value' := v\<rparr>)))
             (listeners fu @ cs) v \<and>
         (list_all (is_Subscription s) (listeners fu @ cs) \<longrightarrow>
            (\<exists>s2. resolve (Suc m) (set_obj s F (Future (fu\<lparr>listeners := listeners fu @ cs\<rparr>))) F v = Inr s2 \<and>
                  occurred_at s2 F \<and> value_at s2 F = v \<and>
                  world s2 = run_callbacks s (listeners fu @ cs) v (world s)))"
proof (intro conjI impI)
  let ?fu1 = "fu\<lparr>listeners := listeners fu @ cs\<rparr>"
  let ?s1 = "set_obj s F (Future ?fu1)"
  show "listen_seq n s F cs = Inr ?s1"
    using assms(1,2) by (rule listen_seq_unoccurred)
  have h1: "heap ?s1 F = Some (Future ?fu1)" and n1: "F < nxt ?s1"
    using assms by (simp_all add: set_obj_def)
  show "resolve m ?s1 F v =
          push_all m
            (set_obj s F (Future (fu\<lparr>listeners := listeners fu @ cs, occurred := True, value' := v\<rparr>)))
            (listeners fu @ cs) v"
    using resolve_push_all [OF h1 n1, of m v] by (simp add: set_obj_def)
  assume subs: "list_all (is_Subscription s) (listeners fu @ cs)"
  have same: "\<And>c. is_Subscription s c \<Longrightarrow> is_Subscription ?s1 c \<and> callback_of ?s1 c = callback_of s c"
    using assms(1)
    by (auto simp: is_Subscription_def callback_of_def set_obj_def split: option.splits obj.splits)
  have subs1: "list_all (is_Subscription ?s1) (listeners ?fu1)"
    using subs same by (simp add: list_all_iff)
  have cb: "run_callbacks ?s1 (listeners fu @ cs) v w = run_callbacks s (listeners fu @ cs) v w" for w
    using subs same by (intro run_callbacks_cong) (simp add: list_all_iff)
  show "\<exists>s2. resolve (Suc m) ?s1 F v = Inr s2 \<and> occurred_at s2 F \<and> value_at s2 F = v \<and>
              world s2 = run_callbacks s (listeners fu @ cs) v (world s)"
    using resolve_Subscriptions [OF h1 subs1, of m v] cb
    by (simp add: occurred_at_def value_at_def set_obj_def)
qed

theorem resolve_delivers_in_registration_order_witness:
  "listen_seq 0 sink_and_two 0 [1, 2] =
     Inr (set_obj sink_and_two 0 (Future ((new_future FutureSink)\<lparr>listeners := [1, 2]\<rparr>))) \<and>
   world (state_of (resolve 1 (state_of (listen_seq 0 sink_and_two 0 [1, 2])) 0 (Prim 5))) =
     [Prim 5, Obj 7]"
proof -
  have h: "heap sink_and_two 0 = Some (Future (new_future FutureSink))"
      "\<not> occurred (new_future FutureSink :: (int, int jsval list) future)" "0 < nxt sink_and_two"
    by (simp_all add: sink_and_two_def new_future_def)
  show ?thesis
    using resolve_delivers_in_registration_order [OF h, of 0 "[1, 2]" 0 "Prim 5"]
    by (auto simp: new_future_def sink_and_two_def is_Subscription_def run_callbacks_def
        callback_of_def print_def)
qed

text \<open>
  C3. For a future \<open>F\<close> that has occurred with stored value \<open>v\<close> and any consumer
  \<open>c\<close>: \<open>F.listen(c)\<close> is the call \<open>c.push(v)\<close>, made at once (same result, same
  final state, whether it returns or raises), and afterwards \<open>F\<close> has the listeners it
  had before, so \<open>c\<close> was not appended, and \<open>F\<close> still has occurred.
\<close>

theorem listen_on_occurred_future:
  assumes "heap s F = Some (Future fu)" and "occurred fu" and "F < nxt s"
  shows "listen n s (Obj F) c = push n s c (value' fu) \<and>
         listeners_at (state_of (listen n s (Obj F) c)) F = listeners fu \<and>
         occurred_at (state_of (listen n s (Obj F) c)) F"
proof (intro conjI)
  show eq: "listen n s (Obj F) c = push n s c (value' fu)"
    using assms by (simp add: listen.simps)
  have k: "keeps s (state_of (listen n s (Obj F) c))"
    using keeps_all(4) [of s s n "Obj F" c] by simp
  show "listeners_at (state_of (listen n s (Obj F) c)) F = listeners fu"
    using keeps_listeners_at [OF k assms] .
  show "occurred_at (state_of (listen n s (Obj F) c)) F"
    using keeps_occurred_at [OF k assms] by (auto simp: occurred_at_def)
qed

text \<open>
  The witness of C3: a future made by \<open>Future.of(7)\<close> hands 7 to a late subscription.
\<close>

theorem listen_on_occurred_future_witness:
  "listen 1 pure_and_one (Obj 0) 1 = Inr (pure_and_one\<lparr>world := [Prim 7]\<rparr>) \<and>
   listeners_at (state_of (listen 1 pure_and_one (Obj 0) 1)) 0 = []"
proof -
  have h: "heap pure_and_one 0 = Some (Future ((new_future PureFuture)\<lparr>value' := Prim 7, occurred := True\<rparr>))"
      "occurred ((new_future PureFuture :: (int, int jsval list) future)\<lparr>value' := Prim 7, occurred := True\<rparr>)"
      "0 < nxt pure_and_one"
    by (simp_all add: pure_and_one_def)
  show ?thesis
    using listen_on_occurred_future [OF h, of 1 1]
    by (simp add: run_simps observe_defs pure_and_one_def print_def)
qed

text \<open>
  C4. The parents \<open>ps\<close> are distinct futures that have not occurred, with terminal
  listeners so far; \<open>qs\<close> is any order of the same futures, and \<open>val_of\<close> gives each
  its value. After the construction of the \<open>LiftFuture\<close> over \<open>ps\<close> (which is what
  \<open>lift\<close> does unless \<open>f.length\<close> is 1) and one subscription \<open>h\<close> on it: after
  resolving any proper prefix of \<open>qs\<close> the lift future has not occurred and \<open>h\<close> has
  not run; after resolving all of \<open>qs\<close> it has occurred, its value is \<open>f\<close> applied
  to the parents' values in the order of \<open>ps\<close>, whatever the order \<open>qs\<close>, and \<open>h\<close>
  has run exactly once, on that value, after the terminal listeners of the last parent.
\<close>

theorem lift_fires_once_after_all:
  fixes s :: "('a, 'w) state"
  assumes w: "list_all (waiting s) ps" and ps: "distinct ps" "ps \<noteq> []"
    and qs: "distinct qs" "set qs = set ps"
  shows "\<exists>s1 s2.
           new_LiftFuture m s f (map Obj ps) = Inr (Obj (nxt s), s1) \<and>
           (arity f \<noteq> 1 \<longrightarrow> lift m s f (map Obj ps) = Inr (Obj (nxt s), s1)) \<and>
           subscribe m s1 (nxt s) h = Inr s2 \<and>
           world s2 = world s \<and>
           (\<forall>k<length qs. \<exists>s3.
              resolve_seq (Suc (Suc j)) s2 (take k qs) val_of = Inr s3 \<and>
              \<not> occurred_at s3 (nxt s) \<and>
              world s3 = notified s val_of (take k qs) (world s)) \<and>
           (\<exists>s4.
              resolve_seq (Suc (Suc j)) s2 qs val_of = Inr s4 \<and>
              occurred_at s4 (nxt s) \<and>
              value_at s4 (nxt s) = call f (map val_of ps) \<and>
              world s4 = h (call f (map val_of ps)) (notified s val_of qs (world s)))"
proof -
  obtain s1 s2 where c: "new_LiftFuture m s f (map Obj ps) = Inr (Obj (nxt s), s1)"
      "subscribe m s1 (nxt s) h = Inr s2" "lift_inv s ps f h val_of 0 {} s2" "world s2 = world s"
    using lift_construct [OF w ps(1), of m f h val_of] by blast
  have len: "length qs = length ps"
    using qs ps(1) by (metis distinct_card)
  have never: "\<not> occurred_at t (nxt s)" if "lift_inv s ps f h val_of k R t" for k R t
    using that by (simp add: lift_inv_def occurred_at_def)
  have before: "\<exists>s3. resolve_seq (Suc (Suc j)) s2 (take k qs) val_of = Inr s3 \<and>
              \<not> occurred_at s3 (nxt s) \<and>
              world s3 = notified s val_of (take k qs) (world s)" if "k < length qs" for k
  proof -
    have "\<exists>t'. resolve_seq (Suc (Suc j)) s2 (take k qs) val_of = Inr t' \<and>
           lift_inv s ps f h val_of (0 + length (take k qs)) ({} \<union> set (take k qs)) t' \<and>
           world t' = notified s val_of (take k qs) (world s2)"
    proof (rule lift_prefix [OF c(3) w])
      show "distinct (take k qs)" using qs(1) by simp
      show "set (take k qs) \<subseteq> set ps" using qs(2) set_take_subset [of k qs] by auto
      show "0 + length (take k qs) < length ps" using that len by simp
    qed simp
    then show ?thesis
      using never c(4) by auto
  qed
  have "qs \<noteq> []"
    using qs(2) ps(2) by auto
  then have split: "qs = butlast qs @ [last qs]" and pos: "0 < length ps"
    using ps(2) by simp_all
  let ?xs = "butlast qs" and ?p = "last qs"
  have "distinct (?xs @ [?p])" "set (?xs @ [?p]) = set ps"
    using qs split by simp_all
  then have dx: "distinct ?xs" "?p \<notin> set ?xs" "set ps = insert ?p (set ?xs)"
    by auto
  have "\<exists>t'. resolve_seq (Suc (Suc j)) s2 ?xs val_of = Inr t' \<and>
           lift_inv s ps f h val_of (0 + length ?xs) ({} \<union> set ?xs) t' \<and>
           world t' = notified s val_of ?xs (world s2)"
  proof (rule lift_prefix [OF c(3) w])
    show "set ?xs \<subseteq> set ps" using dx(3) by auto
    show "0 + length ?xs < length ps" using len pos by simp
  qed (use dx in simp_all)
  then obtain t' where t': "resolve_seq (Suc (Suc j)) s2 ?xs val_of = Inr t'"
      "lift_inv s ps f h val_of (length ?xs) (set ?xs) t'"
      "world t' = notified s val_of ?xs (world s)"
    using c(4) by auto
  have "\<exists>t''. resolve (Suc (Suc j)) t' ?p (val_of ?p) = Inr t'' \<and>
           occurred_at t'' (nxt s) \<and> value_at t'' (nxt s) = call f (map val_of ps) \<and>
           world t'' = h (call f (map val_of ps))
                        (run_callbacks s (listeners_at s ?p) (val_of ?p) (world t'))"
  proof (rule lift_last [OF t'(2) w])
    show "?p \<in> set ps" using dx(3) by simp
    show "Suc (length ?xs) = length ps" using len pos by simp
    show "set ps \<subseteq> insert ?p (set ?xs)" using dx(3) by simp
  qed (use dx in simp_all)
  then obtain t'' where t'': "resolve (Suc (Suc j)) t' ?p (val_of ?p) = Inr t''"
      "occurred_at t'' (nxt s)" "value_at t'' (nxt s) = call f (map val_of ps)"
      "world t'' = h (call f (map val_of ps))
                        (run_callbacks s (listeners_at s ?p) (val_of ?p) (world t'))"
    by blast
  have full: "resolve_seq (Suc (Suc j)) s2 qs val_of = Inr t''"
    using t'(1) t''(1) by (subst split) (simp add: resolve_seq_append)
  have "world t'' = h (call f (map val_of ps)) (notified s val_of qs (world s))"
    using t''(4) t'(3) by (subst split) (simp add: notified_snoc)
  then show ?thesis
    using c(1,2,4) before full t''(2,3) by (auto simp: lift_def)
qed

text \<open>
  The witness of C4: three sinks resolved in the order B, C, A, with \<open>a + b + c\<close>.
\<close>

theorem lift_fires_once_after_all_witness:
  "world (state_of (resolve_seq (Suc (Suc 0)) lifted3 [1, 2] abc_values)) = [] \<and>
   \<not> occurred_at (state_of (resolve_seq (Suc (Suc 0)) lifted3 [1, 2] abc_values)) 3 \<and>
   world (state_of (resolve_seq (Suc (Suc 0)) lifted3 [1, 2, 0] abc_values)) = [Prim 60] \<and>
   value_at (state_of (resolve_seq (Suc (Suc 0)) lifted3 [1, 2, 0] abc_values)) 3 = Prim 60"
proof -
  have h: "list_all (waiting three_sinks) [0, 1, 2]" "distinct [0, 1, 2 :: nat]" "[0, 1, 2 :: nat] \<noteq> []"
      "distinct [1, 2, 0 :: nat]" "set [1, 2, 0 :: nat] = set [0, 1, 2]"
    by (auto simp: waiting_def three_sinks_def new_future_def terminal_def)
  have l3: "lifted3 =
      \<lparr>heap = [0 \<mapsto> Future ((new_future FutureSink)\<lparr>listeners := [3]\<rparr>),
               1 \<mapsto> Future ((new_future FutureSink)\<lparr>listeners := [3]\<rparr>),
               2 \<mapsto> Future ((new_future FutureSink)\<lparr>listeners := [3]\<rparr>),
               3 \<mapsto> Future ((new_future (LiftFuture sum3 [Obj 0, Obj 1, Obj 2] 0 3))\<lparr>listeners := [4]\<rparr>),
               4 \<mapsto> Subscription print (Obj 3)],
       nxt = 5, world = []\<rparr>"
    by (simp add: lifted3_def three_sinks_def run_simps state_of_def state_of_with_def sum3_def)
       (auto simp: fun_eq_iff)
  show ?thesis
    using lift_fires_once_after_all [OF h, of 0 sum3 print 0 abc_values]
    unfolding l3
    by (simp add: run_simps observe_defs state_of_def sum3_def abc_values_def print_def)
qed

text \<open>
  C5. \<open>F\<close> and \<open>G\<close> are two futures with terminal listeners so far, \<open>C = F.chain(f)\<close>,
  and \<open>h\<close> is subscribed to \<open>C\<close>.
  \<^item> \<open>F\<close> has not occurred and \<open>f\<close> returns \<open>G\<close> on the value \<open>v\<close>: after construction
    \<open>C\<close> has not occurred. Resolving \<open>F\<close> first, \<open>C\<close> still has not occurred, and occurs
    in \<open>G.resolve(u)\<close>, with value \<open>u\<close>. Resolving \<open>G\<close> first, \<open>C\<close> has not occurred,
    and occurs in \<open>F.resolve(v)\<close> itself, with value \<open>u\<close>; the same when \<open>G\<close> had
    occurred from the start.
  \<^item> \<open>F\<close> has not occurred and \<open>f\<close> returns \<open>Future.of(u)\<close> on \<open>v\<close>: \<open>C\<close> occurs in
    \<open>F.resolve(v)\<close> itself, with value \<open>u\<close>.
  \<^item> \<open>F\<close> has occurred when the chain is made and \<open>f\<close> returns \<open>G\<close> on its value: if
    \<open>G\<close> has not occurred, neither has \<open>C\<close>, and \<open>C\<close> occurs in \<open>G.resolve(u)\<close> with
    value \<open>u\<close>; if \<open>G\<close> has occurred, \<open>C\<close> occurs during its construction, with the
    value of \<open>G\<close>.
  Each time \<open>h\<close> runs exactly once, on the value of the second future, inside the call
  that makes \<open>C\<close> occur.
\<close>

theorem chain_waits_for_both:
  assumes F: "heap s F = Some (Future fuF)" "F < nxt s" "terminal s (listeners fuF)"
    and G: "heap s G = Some (Future fuG)" "G < nxt s" "terminal s (listeners fuG)"
    and FG: "F \<noteq> G"
  shows "(\<not> occurred fuF \<and> f v = Existing (Obj G) \<longrightarrow>
          (\<exists>s1 s2.
             chain_future n s F f = Inr (Obj (nxt s), s1) \<and>
             subscribe n s1 (nxt s) h = Inr s2 \<and>
             \<not> occurred_at s2 (nxt s) \<and> world s2 = world s \<and>
             (\<not> occurred fuG \<longrightarrow>
                (\<exists>s3 s4.
                   resolve (Suc k) s2 F v = Inr s3 \<and>
                   \<not> occurred_at s3 (nxt s) \<and>
                   world s3 = run_callbacks s (listeners fuF) v (world s) \<and>
                   resolve (Suc (Suc k)) s3 G u = Inr s4 \<and>
                   occurred_at s4 (nxt s) \<and> value_at s4 (nxt s) = u \<and>
                   world s4 = h u (run_callbacks s (listeners fuG) u (world s3)))) \<and>
             (\<not> occurred fuG \<longrightarrow>
                (\<exists>s3 s4.
                   resolve (Suc k) s2 G u = Inr s3 \<and>
                   \<not> occurred_at s3 (nxt s) \<and>
                   world s3 = run_callbacks s (listeners fuG) u (world s) \<and>
                   resolve (Suc (Suc (Suc k))) s3 F v = Inr s4 \<and>
                   occurred_at s4 (nxt s) \<and> value_at s4 (nxt s) = u \<and>
                   world s4 = h u (run_callbacks s (listeners fuF) v (world s3)))) \<and>
             (occurred fuG \<longrightarrow>
                (\<exists>s3.
                   resolve (Suc (Suc (Suc k))) s2 F v = Inr s3 \<and>
                   occurred_at s3 (nxt s) \<and> value_at s3 (nxt s) = value' fuG \<and>
                   world s3 = h (value' fuG) (run_callbacks s (listeners fuF) v (world s)))))) \<and>
         (\<not> occurred fuF \<and> f v = OfE u \<longrightarrow>
          (\<exists>s1 s2 s3.
             chain_future n s F f = Inr (Obj (nxt s), s1) \<and>
             subscribe n s1 (nxt s) h = Inr s2 \<and>
             \<not> occurred_at s2 (nxt s) \<and> world s2 = world s \<and>
             resolve (Suc (Suc (Suc k))) s2 F v = Inr s3 \<and>
             occurred_at s3 (nxt s) \<and> value_at s3 (nxt s) = u \<and>
             world s3 = h u (run_callbacks s (listeners fuF) v (world s)))) \<and>
         (occurred fuF \<and> f (value' fuF) = Existing (Obj G) \<longrightarrow>
          (\<exists>s1 s2.
             chain_future (Suc (Suc n)) s F f = Inr (Obj (nxt s), s1) \<and>
             subscribe (Suc n) s1 (nxt s) h = Inr s2 \<and>
             (\<not> occurred fuG \<longrightarrow>
                \<not> occurred_at s2 (nxt s) \<and> world s2 = world s \<and>
                (\<exists>s3. resolve (Suc (Suc k)) s2 G u = Inr s3 \<and>
                   occurred_at s3 (nxt s) \<and> value_at s3 (nxt s) = u \<and>
                   world s3 = h u (run_callbacks s (listeners fuG) u (world s)))) \<and>
             (occurred fuG \<longrightarrow>
                occurred_at s1 (nxt s) \<and> value_at s1 (nxt s) = value' fuG \<and>
                world s2 = h (value' fuG) (world s))))"
  using chain_unoccurred [OF F(1,2) _ F(3) G FG, of f v n h k u]
    chain_of_pure [OF F(1,2) _ F(3), of f v u n h k]
    chain_on_occurred [OF F(1,2) _ G FG, of f n h k u]
  by blast

text \<open>
  The witness of C5: two sinks, a chain of the first into the second, both orders.
\<close>

theorem chain_waits_for_both_witness:
  "\<not> occurred_at (state_of (resolve (Suc 0) chained 0 (Prim 1))) 2 \<and>
   value_at (state_of (resolve (Suc (Suc 0)) (state_of (resolve (Suc 0) chained 0 (Prim 1))) 1 (Prim 5))) 2
     = Prim 5 \<and>
   \<not> occurred_at (state_of (resolve (Suc 0) chained 1 (Prim 5))) 2 \<and>
   world (state_of (resolve (Suc (Suc (Suc 0))) (state_of (resolve (Suc 0) chained 1 (Prim 5))) 0 (Prim 1)))
     = [Prim 5]"
proof -
  let ?sink = "new_future FutureSink :: (int, int jsval list) future"
  have h: "heap two_sinks 0 = Some (Future ?sink)" "0 < nxt two_sinks"
      "terminal two_sinks (listeners ?sink)"
      "heap two_sinks 1 = Some (Future ?sink)" "1 < nxt two_sinks"
      "terminal two_sinks (listeners ?sink)" "(0::nat) \<noteq> 1"
    by (simp_all add: two_sinks_def new_future_def terminal_def)
  show ?thesis
    using chain_waits_for_both [where s = two_sinks and F = 0 and G = 1 and fuF = ?sink
        and fuG = ?sink and f = "\<lambda>x. Existing (Obj 1)" and v = "Prim 1" and n = 0 and h = print
        and k = 0 and u = "Prim 5", OF h]
    unfolding chained_def two_sinks_def
    by (simp add: run_simps observe_defs print_def state_of_def state_of_with_def)
qed

text \<open>
  C6. For a future \<open>F\<close> whose listeners so far are terminal, build
  \<open>F.map(f).map(g)\<close> on one side and \<open>F.map(x => g(f(x)))\<close> on the other, each with a
  subscription \<open>h\<close> on the outer future. If \<open>F\<close> has not occurred, neither outer future
  has; \<open>F.resolve(v)\<close> makes both occur, with the same value \<open>g(f(v))\<close>, and leaves the
  same world: the earlier listeners of \<open>F\<close> have run, then \<open>h\<close> once on \<open>g(f(v))\<close>.
  If \<open>F\<close> has occurred, both outer futures occur at construction, with the same value,
  and \<open>h\<close> runs at subscription, leaving the same world.
\<close>

theorem map_composition:
  assumes "heap s F = Some (Future fu)" and "F < nxt s" and "terminal s (listeners fu)"
  shows "(\<not> occurred fu \<longrightarrow>
           (\<exists>sA1 sA2 sA3 sA4 sB1 sB2 sB3.
              map_future n s F f = Inr (Obj (nxt s), sA1) \<and>
              map_future n sA1 (nxt s) g = Inr (Obj (Suc (nxt s)), sA2) \<and>
              subscribe n sA2 (Suc (nxt s)) h = Inr sA3 \<and>
              map_future n s F (compose g f) = Inr (Obj (nxt s), sB1) \<and>
              subscribe n sB1 (nxt s) h = Inr sB2 \<and>
              \<not> occurred_at sA3 (Suc (nxt s)) \<and> \<not> occurred_at sB2 (nxt s) \<and>
              world sA3 = world s \<and> world sB2 = world s \<and>
              resolve (Suc (Suc (Suc k))) sA3 F v = Inr sA4 \<and>
              resolve (Suc (Suc (Suc k))) sB2 F v = Inr sB3 \<and>
              occurred_at sA4 (Suc (nxt s)) \<and> occurred_at sB3 (nxt s) \<and>
              value_at sA4 (Suc (nxt s)) = call g [call f [v]] \<and>
              value_at sB3 (nxt s) = call g [call f [v]] \<and>
              world sA4 = h (call g [call f [v]]) (run_callbacks s (listeners fu) v (world s)) \<and>
              world sB3 = world sA4)) \<and>
         (occurred fu \<longrightarrow>
           (\<exists>sA1 sA2 sA3 sB1 sB2.
              map_future (Suc n) s F f = Inr (Obj (nxt s), sA1) \<and>
              map_future (Suc n) sA1 (nxt s) g = Inr (Obj (Suc (nxt s)), sA2) \<and>
              subscribe (Suc n) sA2 (Suc (nxt s)) h = Inr sA3 \<and>
              map_future (Suc n) s F (compose g f) = Inr (Obj (nxt s), sB1) \<and>
              subscribe (Suc n) sB1 (nxt s) h = Inr sB2 \<and>
              occurred_at sA2 (Suc (nxt s)) \<and> occurred_at sB1 (nxt s) \<and>
              value_at sA2 (Suc (nxt s)) = call g [call f [value' fu]] \<and>
              value_at sB1 (nxt s) = call g [call f [value' fu]] \<and>
              world sA3 = h (call g [call f [value' fu]]) (world s) \<and>
              world sB2 = world sA3))"
proof (intro conjI impI)
  assume no: "\<not> occurred fu"
  have ne: "F \<noteq> nxt s" "F \<noteq> Suc (nxt s)" "F \<noteq> Suc (Suc (nxt s))"
    using assms(2) by simp_all
  let ?a1 = "nxt s" and ?a2 = "Suc (nxt s)" and ?a3 = "Suc (Suc (nxt s))"
  let ?fu1 = "fu\<lparr>listeners := listeners fu @ [?a1]\<rparr>"
  let ?M1 = "new_future (MapFuture f (Obj F)) :: ('a, 'b) future"
  let ?M2 = "new_future (MapFuture g (Obj ?a1)) :: ('a, 'b) future"
  let ?M = "new_future (MapFuture (compose g f) (Obj F)) :: ('a, 'b) future"
  let ?sA1 = "s\<lparr>heap := (heap s)(?a1 \<mapsto> Future ?M1, F \<mapsto> Future ?fu1), nxt := ?a2\<rparr>"
  let ?sA2 = "s\<lparr>heap := (heap s)(?a1 \<mapsto> Future (?M1\<lparr>listeners := [?a2]\<rparr>), F \<mapsto> Future ?fu1,
                                    ?a2 \<mapsto> Future ?M2), nxt := ?a3\<rparr>"
  let ?sA3 = "s\<lparr>heap := (heap s)(?a1 \<mapsto> Future (?M1\<lparr>listeners := [?a2]\<rparr>), F \<mapsto> Future ?fu1,
                                    ?a2 \<mapsto> Future (?M2\<lparr>listeners := [?a3]\<rparr>),
                                    ?a3 \<mapsto> Subscription h (Obj ?a2)), nxt := Suc ?a3\<rparr>"
  let ?sB1 = "s\<lparr>heap := (heap s)(?a1 \<mapsto> Future ?M, F \<mapsto> Future ?fu1), nxt := ?a2\<rparr>"
  let ?sB2 = "s\<lparr>heap := (heap s)(?a1 \<mapsto> Future (?M\<lparr>listeners := [?a2]\<rparr>), F \<mapsto> Future ?fu1,
                                    ?a2 \<mapsto> Subscription h (Obj ?a1)), nxt := ?a3\<rparr>"
  have A1: "map_future n s F f = Inr (Obj ?a1, ?sA1)"
    using assms(1) no ne by (simp add: map_future_def new_MapFuture_def new_listening_unoccurred)
  have A2: "map_future n ?sA1 ?a1 g = Inr (Obj ?a2, ?sA2)"
    using ne
    by (simp add: map_future_def new_MapFuture_def new_listening_unoccurred new_future_def)
       (auto simp: fun_upd_twist intro!: state.equality)
  have A3: "subscribe n ?sA2 ?a2 h = Inr ?sA3"
    using ne
    by (simp add: subscribe_def new_Subscription_def new_listening_unoccurred new_future_def)
       (auto simp: fun_upd_twist intro!: state.equality)
  have B1: "map_future n s F (compose g f) = Inr (Obj ?a1, ?sB1)"
    using assms(1) no ne by (simp add: map_future_def new_MapFuture_def new_listening_unoccurred)
  have B2: "subscribe n ?sB1 ?a1 h = Inr ?sB2"
    using ne
    by (simp add: subscribe_def new_Subscription_def new_listening_unoccurred new_future_def)
       (auto simp: fun_upd_twist intro!: state.equality)
  have sub: "\<And>c. c < nxt s \<Longrightarrow> is_Subscription s c \<Longrightarrow> c \<noteq> F"
    using assms(1) by (auto simp: is_Subscription_def)
  have tA: "terminal ?sA3 (listeners fu)" "run_callbacks ?sA3 (listeners fu) = run_callbacks s (listeners fu)"
    using sub by (auto intro!: terminal_transfer [OF assms(3)])
  have tB: "terminal ?sB2 (listeners fu)" "run_callbacks ?sB2 (listeners fu) = run_callbacks s (listeners fu)"
    using sub by (auto intro!: terminal_transfer [OF assms(3)])
  have RA: "resolve (Suc (Suc (Suc k))) ?sA3 F v =
          push (Suc (Suc (Suc k)))
            ((set_obj ?sA3 F (Future (?fu1\<lparr>occurred := True, value' := v\<rparr>)))
               \<lparr>world := run_callbacks ?sA3 (listeners fu) v (world ?sA3)\<rparr>) ?a1 v"
    using assms(2) ne by (intro resolve_terminal_then [OF _ _ _ tA(1)]) simp_all
  have RB: "resolve (Suc (Suc (Suc k))) ?sB2 F v =
          push (Suc (Suc (Suc k)))
            ((set_obj ?sB2 F (Future (?fu1\<lparr>occurred := True, value' := v\<rparr>)))
               \<lparr>world := run_callbacks ?sB2 (listeners fu) v (world ?sB2)\<rparr>) ?a1 v"
    using assms(2) ne by (intro resolve_terminal_then [OF _ _ _ tB(1)]) simp_all
  have EA: "\<exists>sA4. resolve (Suc (Suc (Suc k))) ?sA3 F v = Inr sA4 \<and> occurred_at sA4 ?a2 \<and>
              value_at sA4 ?a2 = call g [call f [v]] \<and>
              world sA4 = h (call g [call f [v]]) (run_callbacks s (listeners fu) v (world s))"
    unfolding RA tA(2) using ne
    by (simp add: push.simps resolve.simps resolve_loop.simps set_obj_def new_future_def
        occurred_at_def value_at_def)
  have EB: "\<exists>sB3. resolve (Suc (Suc (Suc k))) ?sB2 F v = Inr sB3 \<and> occurred_at sB3 ?a1 \<and>
              value_at sB3 ?a1 = call g [call f [v]] \<and>
              world sB3 = h (call g [call f [v]]) (run_callbacks s (listeners fu) v (world s))"
    unfolding RB tB(2) using ne
    by (simp add: push.simps resolve.simps resolve_loop.simps set_obj_def new_future_def
        occurred_at_def value_at_def compose_def array_get_def)
  obtain sA4 where A4: "resolve (Suc (Suc (Suc k))) ?sA3 F v = Inr sA4" "occurred_at sA4 ?a2"
      "value_at sA4 ?a2 = call g [call f [v]]"
      "world sA4 = h (call g [call f [v]]) (run_callbacks s (listeners fu) v (world s))"
    using EA by blast
  obtain sB3 where B3: "resolve (Suc (Suc (Suc k))) ?sB2 F v = Inr sB3" "occurred_at sB3 ?a1"
      "value_at sB3 ?a1 = call g [call f [v]]"
      "world sB3 = h (call g [call f [v]]) (run_callbacks s (listeners fu) v (world s))"
    using EB by blast
  have nA: "\<not> occurred_at ?sA3 ?a2" "world ?sA3 = world s"
    using ne by (simp_all add: occurred_at_def new_future_def)
  have nB: "\<not> occurred_at ?sB2 ?a1" "world ?sB2 = world s"
    using ne by (simp_all add: occurred_at_def new_future_def)
  from A1 A2 A3 B1 B2 nA nB A4 B3
  show "\<exists>sA1 sA2 sA3 sA4 sB1 sB2 sB3.
              map_future n s F f = Inr (Obj (nxt s), sA1) \<and>
              map_future n sA1 (nxt s) g = Inr (Obj (Suc (nxt s)), sA2) \<and>
              subscribe n sA2 (Suc (nxt s)) h = Inr sA3 \<and>
              map_future n s F (compose g f) = Inr (Obj (nxt s), sB1) \<and>
              subscribe n sB1 (nxt s) h = Inr sB2 \<and>
              \<not> occurred_at sA3 (Suc (nxt s)) \<and> \<not> occurred_at sB2 (nxt s) \<and>
              world sA3 = world s \<and> world sB2 = world s \<and>
              resolve (Suc (Suc (Suc k))) sA3 F v = Inr sA4 \<and>
              resolve (Suc (Suc (Suc k))) sB2 F v = Inr sB3 \<and>
              occurred_at sA4 (Suc (nxt s)) \<and> occurred_at sB3 (nxt s) \<and>
              value_at sA4 (Suc (nxt s)) = call g [call f [v]] \<and>
              value_at sB3 (nxt s) = call g [call f [v]] \<and>
              world sA4 = h (call g [call f [v]]) (run_callbacks s (listeners fu) v (world s)) \<and>
              world sB3 = world sA4"
    by (metis (no_types, lifting))
next
  assume oc: "occurred fu"
  have ne: "F \<noteq> nxt s" "F \<noteq> Suc (nxt s)" "F \<noteq> Suc (Suc (nxt s))"
    using assms(2) by simp_all
  show "\<exists>sA1 sA2 sA3 sB1 sB2.
              map_future (Suc n) s F f = Inr (Obj (nxt s), sA1) \<and>
              map_future (Suc n) sA1 (nxt s) g = Inr (Obj (Suc (nxt s)), sA2) \<and>
              subscribe (Suc n) sA2 (Suc (nxt s)) h = Inr sA3 \<and>
              map_future (Suc n) s F (compose g f) = Inr (Obj (nxt s), sB1) \<and>
              subscribe (Suc n) sB1 (nxt s) h = Inr sB2 \<and>
              occurred_at sA2 (Suc (nxt s)) \<and> occurred_at sB1 (nxt s) \<and>
              value_at sA2 (Suc (nxt s)) = call g [call f [value' fu]] \<and>
              value_at sB1 (nxt s) = call g [call f [value' fu]] \<and>
              world sA3 = h (call g [call f [value' fu]]) (world s) \<and>
              world sB2 = world sA3"
    using assms(1) oc ne
    by (simp add: run_simps observe_defs compose_def)
qed

text \<open>
  The witness of C6: doubling twice, against the composed function, on 21.
\<close>

theorem map_composition_witness:
  "world (state_of (resolve 3 (state_of (subscribe 0 (state_of_with (map_future 0
       (state_of_with (map_future 0 fresh_sink 0 double)) 1 double)) 2 print)) 0 (Prim 21))) = [Prim 84] \<and>
   world (state_of (resolve 3 (state_of (subscribe 0 (state_of_with (map_future 0 fresh_sink 0
       (compose double double))) 1 print)) 0 (Prim 21))) = [Prim 84]"
proof -
  have h: "heap fresh_sink 0 = Some (Future (new_future FutureSink))" "0 < nxt fresh_sink"
      "terminal fresh_sink (listeners (new_future FutureSink :: (int, int jsval list) future))"
    by (simp_all add: fresh_sink_def init_state_def run_simps terminal_def)
  have fs: "fresh_sink = \<lparr>heap = [0 \<mapsto> Future (new_future FutureSink)], nxt = Suc 0, world = []\<rparr>"
    by (simp add: fresh_sink_def init_state_def run_simps)
  have n3: "(3::nat) = Suc (Suc (Suc 0))"
    by simp
  show ?thesis
    using map_composition [OF h, of 0 double double print 0 "Prim 21"]
    unfolding fs n3
    by (simp add: run_simps observe_defs double_def compose_def print_def state_of_def
        state_of_with_def)
qed

text \<open>
  C7. From any state: \<open>sink = sinkFuture()\<close>, \<open>mapped = sink.map(x => x * 2)\<close>,
  \<open>mapped.subscribe(g)\<close>. Up to here \<open>g\<close> has not run. The call \<open>sink.resolve(21)\<close>
  returns, and the world it returns is the one in which \<open>g\<close> has run exactly once, on
  42: the side effect happens inside that call.
\<close>

theorem sink_map_subscribe_scenario:
  fixes s :: "(int, 'w) state"
  shows "\<exists>sink mapped s1 s2 s3 s4.
           sinkFuture s = (Obj sink, s1) \<and>
           map_future n s1 sink double = Inr (Obj mapped, s2) \<and>
           subscribe n s2 mapped g = Inr s3 \<and>
           world s3 = world s \<and> \<not> occurred_at s3 sink \<and> \<not> occurred_at s3 mapped \<and>
           resolve (Suc (Suc n)) s3 sink (Prim 21) = Inr s4 \<and>
           world s4 = g (Prim 42) (world s) \<and>
           occurred_at s4 mapped \<and> value_at s4 mapped = Prim 42"
  by (simp add: run_simps observe_defs double_def)

text \<open>
  C8. \<open>push\<close> on a \<open>PureFuture\<close>, \<open>push\<close> on a \<open>FutureSink\<close> and
  \<open>changeStateDown\<close> on a \<open>BehaviorFuture\<close> each raise an \<open>Error\<close> at once, before
  any assignment: the state the exception carries is the state of the call. The three
  errors differ from each other, by their messages, and from the other errors.
\<close>

theorem contract_violations_raise:
  assumes "heap s c = Some (Future fu)"
  shows "(kind fu = PureFuture \<longrightarrow>
            push (Suc n) s c v = Inl (Error ''A PureFuture should never be pushed to.'', s)) \<and>
         (kind fu = FutureSink \<longrightarrow>
            push (Suc n) s c v = Inl (Error ''A sink should never be pushed to.'', s)) \<and>
         (kind fu = BehaviorFuture b \<longrightarrow>
            changeStateDown s c = Inl (Error ''Behavior future does not support pushing behavior'', s)) \<and>
         distinct [Error ''A PureFuture should never be pushed to.'',
                   Error ''A sink should never be pushed to.'',
                   Error ''Behavior future does not support pushing behavior'',
                   TypeError, OutOfFuel]"
  using assms by (simp add: push.simps changeStateDown_def)

text \<open>
  The witness of C8, on one future of each of the three classes.
\<close>

theorem contract_violations_raise_witness:
  "push (Suc 0) rejecting 0 (Prim 1) = Inl (Error ''A PureFuture should never be pushed to.'', rejecting) \<and>
   push (Suc 0) rejecting 1 (Prim 1) = Inl (Error ''A sink should never be pushed to.'', rejecting) \<and>
   changeStateDown rejecting 2 =
     Inl (Error ''Behavior future does not support pushing behavior'', rejecting)"
proof -
  have h0: "heap rejecting 0 = Some (Future ((new_future PureFuture)\<lparr>value' := Prim 7, occurred := True\<rparr>))"
    and h1: "heap rejecting 1 = Some (Future (new_future FutureSink))"
    and h2: "heap rejecting 2 = Some (Future (new_future (BehaviorFuture list_behavior)))"
    by (simp_all add: rejecting_def)
  show ?thesis
    using contract_violations_raise [OF h0, of 0 "Prim 1" list_behavior]
      contract_violations_raise [OF h1, of 0 "Prim 1" list_behavior]
      contract_violations_raise [OF h2, of 0 "Prim 1" list_behavior]
    by (simp add: new_future_def)
qed

text \<open>
  C9. \<open>push(a)\<close> on a \<open>BehaviorFuture\<close> is \<open>resolve(a)\<close> run in the state in which
  \<open>removeListener\<close> has already acted. With subscription listeners the call returns, the
  adapter has occurred with value \<open>a\<close>, and every subscription's function has run in a
  world that already contains the effect of \<open>removeListener\<close>.
\<close>

theorem behavior_push_deregisters_first:
  assumes "heap s c = Some (Future fu)" and "kind fu = BehaviorFuture b"
  shows "push (Suc n) s c a = resolve n (s\<lparr>world := removeListener b c (world s)\<rparr>) c a \<and>
         (list_all (is_Subscription s) (listeners fu) \<longrightarrow>
            (\<exists>s2. push (Suc (Suc n)) s c a = Inr s2 \<and>
                  occurred_at s2 c \<and> value_at s2 c = a \<and>
                  world s2 = run_callbacks s (listeners fu) a (removeListener b c (world s))))"
proof (intro conjI impI)
  let ?s1 = "s\<lparr>world := removeListener b c (world s)\<rparr>"
  show "push (Suc n) s c a = resolve n ?s1 c a"
    using assms by (simp add: push.simps)
  assume subs: "list_all (is_Subscription s) (listeners fu)"
  have h1: "heap ?s1 c = Some (Future fu)"
    using assms(1) by simp
  have same: "is_Subscription ?s1 = is_Subscription s" "callback_of ?s1 = callback_of s"
    by (simp_all add: is_Subscription_def callback_of_def fun_eq_iff)
  have subs1: "list_all (is_Subscription ?s1) (listeners fu)"
    using subs by (simp add: same)
  have cb: "run_callbacks ?s1 cs a w = run_callbacks s cs a w" for cs w
    by (simp add: run_callbacks_def same)
  show "\<exists>s2. push (Suc (Suc n)) s c a = Inr s2 \<and> occurred_at s2 c \<and> value_at s2 c = a \<and>
              world s2 = run_callbacks s (listeners fu) a (removeListener b c (world s))"
    using resolve_Subscriptions [OF h1 subs1, of n a] assms
    by (simp add: push.simps cb occurred_at_def value_at_def set_obj_def)
qed

text \<open>
  The witness of C9: the subscription of the adapter logs the observers of the Behavior at
  the moment it is notified, and the adapter is no longer among them.
\<close>

theorem behavior_push_deregisters_first_witness:
  "world adapter_subscribed = ([0], []) \<and>
   world (state_of (push (Suc (Suc 0)) adapter_subscribed 0 (Prim 9))) = ([], [(Prim 9, [])]) \<and>
   value_at (state_of (push (Suc (Suc 0)) adapter_subscribed 0 (Prim 9))) 0 = Prim 9"
proof -
  let ?fu = "\<lparr>occurred = False, value' = Undefined, listeners = [1], kind = BehaviorFuture list_behavior\<rparr>
               :: (int, addr list \<times> (int jsval \<times> addr list) list) future"
  have s: "adapter_subscribed =
             \<lparr>heap = [0 \<mapsto> Future ?fu, 1 \<mapsto> Subscription log_observers (Obj 0)],
              nxt = 2, world = ([0], [])\<rparr>"
    by (simp add: adapter_subscribed_def run_simps state_of_def list_behavior_def fun_upd_twist)
  have h: "heap adapter_subscribed 0 = Some (Future ?fu)" "kind ?fu = BehaviorFuture list_behavior"
    unfolding s by simp_all
  have subs: "list_all (is_Subscription adapter_subscribed) (listeners ?fu)"
    unfolding s by (simp add: is_Subscription_def)
  show ?thesis
    using behavior_push_deregisters_first [OF h, of 0 "Prim 9"] subs
    unfolding s
    by (auto simp: observe_defs list_behavior_def log_observers_def)
qed

text \<open>
  C10. When \<open>f.length\<close> is 1, \<open>lift(f, m, ...)\<close> is \<open>m.map(f)\<close>: the same
  \<open>MapFuture\<close> over the first argument. When \<open>f.length\<close> is not 1 it is the constructor
  of \<open>LiftFuture\<close>. For a future \<open>m\<close> whose listeners so far are terminal: if \<open>m\<close> has
  not occurred, the lifted future has not occurred either, and \<open>m.resolve(v)\<close> makes it
  occur with value \<open>f(v)\<close>; if \<open>m\<close> has occurred, the lifted future occurs during its
  construction, with \<open>f\<close> of the stored value of \<open>m\<close>.
\<close>

theorem lift_unary_is_map:
  assumes "heap s m = Some (Future fu)" and "m < nxt s" and "terminal s (listeners fu)"
  shows "(arity f = 1 \<longrightarrow> lift n s f (Obj m # rest) = map_future n s m f) \<and>
         (arity f \<noteq> 1 \<longrightarrow> lift n s f args = new_LiftFuture n s f args) \<and>
         (arity f = 1 \<and> \<not> occurred fu \<longrightarrow>
            (\<exists>s1 s2. lift n s f (Obj m # rest) = Inr (Obj (nxt s), s1) \<and>
               \<not> occurred_at s1 (nxt s) \<and> world s1 = world s \<and>
               resolve (Suc k) s1 m v = Inr s2 \<and>
               occurred_at s2 m \<and> occurred_at s2 (nxt s) \<and>
               value_at s2 (nxt s) = call f [v])) \<and>
         (arity f = 1 \<and> occurred fu \<longrightarrow>
            (\<exists>s1. lift (Suc n) s f (Obj m # rest) = Inr (Obj (nxt s), s1) \<and>
               occurred_at s1 (nxt s) \<and> value_at s1 (nxt s) = call f [value' fu]))"
proof (intro conjI impI)
  show "lift n s f (Obj m # rest) = map_future n s m f" if "arity f = 1"
    using that by (simp add: lift_def map_future_def array_get_def)
  show "lift n s f args = new_LiftFuture n s f args" if "arity f \<noteq> 1"
    using that by (simp add: lift_def)
next
  assume a: "arity f = 1 \<and> \<not> occurred fu"
  let ?M = "nxt s"
  let ?fu1 = "fu\<lparr>listeners := listeners fu @ [?M]\<rparr>"
  let ?s1 = "s\<lparr>heap := (heap s)(?M \<mapsto> Future (new_future (MapFuture f (Obj m))), m \<mapsto> Future ?fu1),
               nxt := Suc ?M\<rparr>"
  have l: "lift n s f (Obj m # rest) = Inr (Obj ?M, ?s1)"
    using a assms(1,2) new_listening_unoccurred [of s m fu n]
    by (simp add: lift_def new_MapFuture_def array_get_def)
  have t1: "terminal ?s1 (listeners fu)"
    using assms by (auto simp: terminal_def list_all_iff is_Subscription_def)
  have r1: "run_callbacks ?s1 (listeners fu) = run_callbacks s (listeners fu)"
    unfolding fun_eq_iff using assms
    by (intro allI run_callbacks_cong)
       (auto simp: terminal_def list_all_iff is_Subscription_def callback_of_def)
  have "resolve (Suc k) ?s1 m v =
          push (Suc k)
            ((set_obj ?s1 m (Future (?fu1\<lparr>occurred := True, value' := v\<rparr>)))
               \<lparr>world := run_callbacks ?s1 (listeners fu) v (world ?s1)\<rparr>) ?M v"
    using assms(2) by (intro resolve_terminal_then [OF _ _ _ t1]) simp_all
  then have "\<exists>s2. resolve (Suc k) ?s1 m v = Inr s2 \<and> occurred_at s2 m \<and> occurred_at s2 ?M \<and>
               value_at s2 ?M = call f [v]"
    using assms(2)
    by (simp add: push.simps resolve.simps resolve_loop.simps set_obj_def new_future_def
        occurred_at_def value_at_def)
  then show "\<exists>s1 s2. lift n s f (Obj m # rest) = Inr (Obj ?M, s1) \<and>
               \<not> occurred_at s1 ?M \<and> world s1 = world s \<and>
               resolve (Suc k) s1 m v = Inr s2 \<and>
               occurred_at s2 m \<and> occurred_at s2 ?M \<and> value_at s2 ?M = call f [v]"
    using l assms(2) by (auto simp: occurred_at_def new_future_def)
next
  assume a: "arity f = 1 \<and> occurred fu"
  show "\<exists>s1. lift (Suc n) s f (Obj m # rest) = Inr (Obj (nxt s), s1) \<and>
               occurred_at s1 (nxt s) \<and> value_at s1 (nxt s) = call f [value' fu]"
    using a assms(1,2) new_listening_occurred [of s m fu "Suc n"]
    by (simp add: lift_def new_MapFuture_def array_get_def push.simps resolve.simps
        resolve_loop.simps alloc_def set_obj_def new_future_def occurred_at_def value_at_def)
qed

text \<open>
  The witness of C10: \<open>lift(x => x * 2, sink)\<close>, then \<open>sink.resolve(21)\<close>.
\<close>

theorem lift_unary_is_map_witness:
  "lift 0 fresh_sink double [Obj 0] = map_future 0 fresh_sink 0 double \<and>
   \<not> occurred_at (state_of_with (lift 0 fresh_sink double [Obj 0])) 1 \<and>
   value_at (state_of (resolve (Suc 0) (state_of_with (lift 0 fresh_sink double [Obj 0])) 0 (Prim 21))) 1
     = Prim 42"
proof -
  have h: "heap fresh_sink 0 = Some (Future (new_future FutureSink))" "0 < nxt fresh_sink"
      "terminal fresh_sink (listeners (new_future FutureSink :: (int, int jsval list) future))"
    by (simp_all add: fresh_sink_def init_state_def run_simps terminal_def)
  have a: "arity double = 1"
    by (simp add: double_def)
  have fs: "fresh_sink = \<lparr>heap = [0 \<mapsto> Future (new_future FutureSink)], nxt = Suc 0, world = []\<rparr>"
    by (simp add: fresh_sink_def init_state_def run_simps)
  show ?thesis
    using lift_unary_is_map [OF h, of double 0 "[]" "[]" 0 "Prim 21"] a
    unfolding fs
    by (simp add: run_simps observe_defs double_def state_of_def state_of_with_def)
qed

end
